theory Spec2Isabelle
  imports Main "HOL-Library.Sublist"
begin

section \<open>JavaScript values and the object store\<close>

text \<open>
  The library is plain JavaScript. Its values are modelled by \<open>val\<close>: the primitives, the
  \<open>Error\<close> objects the library itself throws (identified by the message they carry), and
  references into a store of objects. Numbers are the integers (no \<open>NaN\<close>, no infinity,
  no fraction); strings are lists of characters.

  An object is a \<open>cell\<close>: its class (plain object, array, function with its \<open>name\<close>, or any
  other object such as a class instance), its own enumerable data properties in the order
  \<open>Object.keys\<close> lists them, and, for an array, its elements. Accessor properties are
  outside the model, and so are prototypes: a property list may hold the key
  \<open>__proto__\<close>, but a write under that key is modelled like any other write, where in
  JavaScript it changes the prototype of the object. The store is a list of cells, an
  address is an index into it, and allocation appends.
\<close>

datatype err =
    TypeError
  | NonConfigError
  | DataParseError

type_synonym addr = nat

datatype val =
    Undefined
  | Null
  | Bool bool
  | Num int
  | Str string
  | Error err
  | Ref addr

datatype cls = Plain | Array | Function string | Other

datatype cell = Cell (cls_of: cls) (props: "(string \<times> val) list") (elems: "val list")

type_synonym heap = "cell list"

definition cell_at :: "heap \<Rightarrow> addr \<Rightarrow> cell option" where
  "cell_at h a = (if a < length h then Some (h ! a) else None)"

definition alloc :: "heap \<Rightarrow> cell \<Rightarrow> addr \<times> heap" where
  "alloc h c = (length h, h @ [c])"

text \<open>JavaScript truthiness: \<open>!v\<close> is \<open>\<not> truthy v\<close>.\<close>

fun truthy :: "val \<Rightarrow> bool" where
  "truthy Undefined = False"
| "truthy Null = False"
| "truthy (Bool b) = b"
| "truthy (Num n) = (n \<noteq> 0)"
| "truthy (Str s) = (s \<noteq> [])"
| "truthy (Error e) = True"
| "truthy (Ref a) = True"

text \<open>
  \<open>lookup ps k\<close> reads key \<open>k\<close> of a property list; a missing key reads as \<open>undefined\<close>.
\<close>

definition lookup :: "(string \<times> val) list \<Rightarrow> string \<Rightarrow> val" where
  "lookup ps k = (case map_of ps k of None \<Rightarrow> Undefined | Some v \<Rightarrow> v)"

text \<open>
  \<open>get h v k\<close> is the property read \<open>v.k\<close> for a value \<open>v\<close> that is neither \<open>null\<close> nor
  \<open>undefined\<close> and a key \<open>k\<close> that is not an array index: an own property, the \<open>length\<close> of a
  string or an array, the \<open>name\<close> of a function, and \<open>undefined\<close> otherwise (none of the
  keys the library reads is defined on a built-in prototype).
\<close>

definition get :: "heap \<Rightarrow> val \<Rightarrow> string \<Rightarrow> val" where
  "get h v k =
     (case v of
        Str s \<Rightarrow> (if k = ''length'' then Num (int (length s)) else Undefined)
      | Ref a \<Rightarrow>
          (case cell_at h a of
             None \<Rightarrow> Undefined
           | Some c \<Rightarrow>
               (case map_of (props c) k of
                  Some x \<Rightarrow> x
                | None \<Rightarrow>
                    (case cls_of c of
                       Array \<Rightarrow> (if k = ''length'' then Num (int (length (elems c))) else Undefined)
                     | Function n \<Rightarrow> (if k = ''name'' then Str n else Undefined)
                     | _ \<Rightarrow> Undefined)))
      | _ \<Rightarrow> Undefined)"

text \<open>
  \<open>hasOwnProperty h v k\<close> is \<open>Object.prototype.hasOwnProperty.call(v, k)\<close> for \<open>v\<close> neither
  \<open>null\<close> nor \<open>undefined\<close> (there the call throws; the callers below check first) and \<open>k\<close>
  not an array index.
\<close>

definition hasOwnProperty :: "heap \<Rightarrow> val \<Rightarrow> string \<Rightarrow> bool" where
  "hasOwnProperty h v k =
     (case v of
        Str s \<Rightarrow> k = ''length''
      | Ref a \<Rightarrow>
          (case cell_at h a of
             None \<Rightarrow> False
           | Some c \<Rightarrow>
               k \<in> set (map fst (props c)) \<or>
               (case cls_of c of
                  Array \<Rightarrow> k = ''length''
                | Function n \<Rightarrow> k = ''name'' \<or> k = ''length''
                | _ \<Rightarrow> False))
      | _ \<Rightarrow> False)"

section \<open>Adapter selection\<close>

datatype adapter =
    uploadFileAdapter
  | downloadFileAdapter
  | connectSocketAdapter
  | requestAdapter

text \<open>
  \<open>getDefaultAdapter(config)\<close>: throws when \<open>config\<close> is falsy, otherwise returns the pair
  \<open>{ adapter, adapterName }\<close>.
\<close>

definition getDefaultAdapter :: "heap \<Rightarrow> val \<Rightarrow> err + adapter \<times> string" where
  "getDefaultAdapter h config =
     (if \<not> truthy config then Inl NonConfigError
      else if truthy (get h config ''name'') \<and> truthy (get h config ''filePath'')
        then Inr (uploadFileAdapter, ''wx.uploadFile'')
      else if \<not> truthy (get h config ''name'') \<and> hasOwnProperty h config ''filePath''
        then Inr (downloadFileAdapter, ''wx.downloadFile'')
      else if hasOwnProperty h config ''protocols''
        then Inr (connectSocketAdapter, ''wx.connectSocket'')
      else Inr (requestAdapter, ''wx.request''))"

section \<open>Type predicates\<close>

text \<open>
  \<open>utils.isPlainObject\<close>, \<open>utils.isFunction\<close>, \<open>Array.isArray\<close> and \<open>utils.isString\<close>.
  A \<open>String\<close> wrapper object is not among the objects of class \<open>Other\<close>.
\<close>

definition isPlainObject :: "heap \<Rightarrow> val \<Rightarrow> bool" where
  "isPlainObject h v =
     (case v of Ref a \<Rightarrow> (case cell_at h a of Some c \<Rightarrow> cls_of c = Plain | None \<Rightarrow> False)
      | _ \<Rightarrow> False)"

definition isFunction :: "heap \<Rightarrow> val \<Rightarrow> bool" where
  "isFunction h v =
     (case v of
        Ref a \<Rightarrow> (case cell_at h a of
                    Some c \<Rightarrow> (case cls_of c of Function n \<Rightarrow> True | _ \<Rightarrow> False)
                  | None \<Rightarrow> False)
      | _ \<Rightarrow> False)"

definition isArray :: "heap \<Rightarrow> val \<Rightarrow> bool" where
  "isArray h v =
     (case v of Ref a \<Rightarrow> (case cell_at h a of Some c \<Rightarrow> cls_of c = Array | None \<Rightarrow> False)
      | _ \<Rightarrow> False)"

definition isString :: "val \<Rightarrow> bool" where
  "isString v = (case v of Str s \<Rightarrow> True | _ \<Rightarrow> False)"

text \<open>
  \<open>utils.isArrayLike(value)\<close> is
  \<open>value !== null && typeof value !== 'function' && hasOwnProperty.call(value, 'length')\<close>.
  The comparison is strict, so \<open>undefined\<close> passes the first two tests and reaches
  \<open>hasOwnProperty.call(undefined, 'length')\<close>, which throws a \<open>TypeError\<close>.
\<close>

definition isArrayLike :: "heap \<Rightarrow> val \<Rightarrow> err + bool" where
  "isArrayLike h v =
     (if v = Null then Inr False
      else if isFunction h v then Inr False
      else if v = Undefined then Inl TypeError
      else Inr (hasOwnProperty h v ''length''))"

section \<open>Conversion to strings\<close>

text \<open>
  \<open>v + ''\<close>. An integer of magnitude below \<open>10 ^ 21\<close> prints in decimal. The text of a
  larger number (in exponent notation) and the text of an object (a function's source, an
  array's joined elements, a user-defined \<open>toString\<close>) are the host's business: they are
  the parameter \<open>objstr\<close>.
\<close>

definition digit_char :: "nat \<Rightarrow> char" where
  "digit_char d = ''0123456789'' ! (d mod 10)"

fun digits :: "nat \<Rightarrow> string" where
  "digits n = (if n < 10 then [digit_char n] else digits (n div 10) @ [digit_char (n mod 10)])"

declare digits.simps [simp del]

definition show_int :: "int \<Rightarrow> string" where
  "show_int i = (if i < 0 then CHR ''-'' # digits (nat (- i)) else digits (nat i))"

definition to_string :: "(val \<Rightarrow> string) \<Rightarrow> val \<Rightarrow> string" where
  "to_string objstr v =
     (case v of
        Undefined \<Rightarrow> ''undefined''
      | Null \<Rightarrow> ''null''
      | Bool b \<Rightarrow> (if b then ''true'' else ''false'')
      | Num n \<Rightarrow> (if - (10 ^ 21) < n \<and> n < 10 ^ 21 then show_int n else objstr v)
      | Str s \<Rightarrow> s
      | _ \<Rightarrow> objstr v)"

section \<open>URL helpers\<close>

text \<open>
  \<open>reHeadSlash = /^\/+/\<close> and \<open>reFootSlash = /\/+$/\<close>: \<open>replace\<close> with the empty string
  removes the leading, respectively trailing, run of slashes.
\<close>

definition strip_head_slash :: "string \<Rightarrow> string" where
  "strip_head_slash s = dropWhile (\<lambda>c. c = CHR ''/'') s"

definition strip_foot_slash :: "string \<Rightarrow> string" where
  "strip_foot_slash s = rev (dropWhile (\<lambda>c. c = CHR ''/'') (rev s))"

text \<open>\<open>helpers.combineURLs(url1, url2)\<close> on strings.\<close>

definition combineURLs :: "string \<Rightarrow> string \<Rightarrow> string" where
  "combineURLs url1 url2 =
     (if url1 = [] \<or> url2 = [] then []
      else strip_foot_slash url1 @ ''/'' @ strip_head_slash url2)"

text \<open>
  \<open>helpers.buildPathParam(url, params)\<close>. The \<open>forEach\<close> over \<open>Object.keys(params)\<close> appends
  to \<open>suffix\<close>; \<open>index\<close> is the position of the key among all keys, skipped ones included.
\<close>

fun build_suffix :: "(val \<Rightarrow> string) \<Rightarrow> heap \<Rightarrow> (string \<times> val) list \<Rightarrow> bool \<Rightarrow> nat \<Rightarrow> string list \<Rightarrow> string" where
  "build_suffix objstr h ps isExist index [] = []"
| "build_suffix objstr h ps isExist index (key # keys) =
     (if \<not> isFunction h (lookup ps key)
      then (if \<not> isExist \<and> index = 0 then [] else ''&'') @ (key @ ''='' @ to_string objstr (lookup ps key))
      else [])
     @ build_suffix objstr h ps isExist (Suc index) keys"

definition buildPathParam :: "(val \<Rightarrow> string) \<Rightarrow> heap \<Rightarrow> val \<Rightarrow> val \<Rightarrow> string" where
  "buildPathParam objstr h url params =
     (if \<not> truthy url then []
      else
        let url' = to_string objstr url in
        if isPlainObject h params then
          (case params of
             Ref a \<Rightarrow>
               let ps = props (h ! a);
                   keys = map fst ps;
                   isExist = (CHR ''='' \<in> set url');
                   suffix = build_suffix objstr h ps isExist 0 keys
               in combineURLs url' (''?'' @ suffix)
           | _ \<Rightarrow> [])
        else combineURLs url' (to_string objstr params))"

section \<open>Interceptor manager\<close>

text \<open>
  A handler is a JavaScript function of one argument. It returns a value or throws one, and
  it may have effects of its own: it is a transformer of an external state \<open>'s\<close>. A
  registered handler may be missing (\<open>undefined\<close>): \<open>None\<close>.
\<close>

datatype ret = Returns val | Throws val

type_synonym 's jsfun = "val \<Rightarrow> 's \<Rightarrow> ret \<times> 's"

record 's interceptor =
  fulfilled :: "'s jsfun option"
  rejected :: "'s jsfun option"

text \<open>\<open>this.handlers\<close>: an ejected entry is \<open>null\<close>, here \<open>None\<close>.\<close>

type_synonym 's handlers = "'s interceptor option list"

definition InterceptorManager :: "'s handlers" where
  "InterceptorManager = []"

definition use :: "'s handlers \<Rightarrow> 's jsfun option \<Rightarrow> 's jsfun option \<Rightarrow> nat \<times> 's handlers" where
  "use hs f r = (length hs, hs @ [Some \<lparr>fulfilled = f, rejected = r\<rparr>])"

definition eject :: "'s handlers \<Rightarrow> nat \<Rightarrow> 's handlers" where
  "eject hs i = (if i < length hs \<and> hs ! i \<noteq> None then hs[i := None] else hs)"

fun forEach :: "'s handlers \<Rightarrow> ('s interceptor \<Rightarrow> 'a \<Rightarrow> 'a) \<Rightarrow> 'a \<Rightarrow> 'a" where
  "forEach [] fn acc = acc"
| "forEach (None # hs) fn acc = forEach hs fn acc"
| "forEach (Some i # hs) fn acc = forEach hs fn (fn i acc)"

section \<open>The request pipeline\<close>

text \<open>
  A promise is modelled by the state it settles in. \<open>outcome\<close> is what a call gives back: it
  throws synchronously or it returns a promise.
\<close>

datatype settled = Fulfilled val | Rejected val

datatype outcome = Thrown val | Promise settled

text \<open>Calling \<open>undefined\<close> throws a \<open>TypeError\<close>.\<close>

fun call :: "'s jsfun option \<Rightarrow> val \<Rightarrow> 's \<Rightarrow> ret \<times> 's" where
  "call None x s = (Throws (Error TypeError), s)"
| "call (Some f) x s = f x s"

text \<open>
  \<open>requestInterceptors.unshift(interceptor.fulfilled, interceptor.rejected)\<close> and
  \<open>responseInterceptors.push(interceptor.fulfilled, interceptor.rejected)\<close>.
\<close>

definition unshiftRequestInterceptors :: "'s interceptor \<Rightarrow> 's jsfun option list \<Rightarrow> 's jsfun option list" where
  "unshiftRequestInterceptors i acc = fulfilled i # rejected i # acc"

definition pushResponseInterceptors :: "'s interceptor \<Rightarrow> 's jsfun option list \<Rightarrow> 's jsfun option list" where
  "pushResponseInterceptors i acc = acc @ [fulfilled i, rejected i]"

text \<open>
  The loop over the request interceptors:
  \<^verbatim>\<open>
  while (requestInterceptors.length) {
    const onFulfilled = requestInterceptors.shift()
    const onRejected = requestInterceptors.shift()
    try { newConfig = onFulfilled(newConfig) }
    catch(err) { onRejected(err); break }
  }
  \<close>
  It ends with the new config (\<open>Inr\<close>), or by an exception that leaves \<open>request\<close> (\<open>Inl\<close>):
  the one \<open>onRejected\<close> throws, outside the \<open>try\<close>.
\<close>

fun request_loop :: "'s jsfun option list \<Rightarrow> val \<Rightarrow> 's \<Rightarrow> (val + val) \<times> 's" where
  "request_loop [] newConfig s = (Inr newConfig, s)"
| "request_loop [onFulfilled] newConfig s =
     (case call onFulfilled newConfig s of
        (Returns c, s') \<Rightarrow> (Inr c, s')
      | (Throws e, s') \<Rightarrow>
          (case call None e s' of
             (Returns x, s'') \<Rightarrow> (Inr newConfig, s'')
           | (Throws e', s'') \<Rightarrow> (Inl e', s'')))"
| "request_loop (onFulfilled # onRejected # rest) newConfig s =
     (case call onFulfilled newConfig s of
        (Returns c, s') \<Rightarrow> request_loop rest c s'
      | (Throws e, s') \<Rightarrow>
          (case call onRejected e s' of
             (Returns x, s'') \<Rightarrow> (Inr newConfig, s'')
           | (Throws e', s'') \<Rightarrow> (Inl e', s'')))"

text \<open>
  \<open>promise.then(onFulfilled, onRejected)\<close> on a settled promise: the handler for the state
  runs and its result settles the new promise; a handler that is not a function passes the
  state on. A handler that returns a rejected promise counts as one that throws.
\<close>

definition then_promise :: "settled \<Rightarrow> 's jsfun option \<Rightarrow> 's jsfun option \<Rightarrow> 's \<Rightarrow> settled \<times> 's" where
  "then_promise p onFulfilled onRejected s =
     (case (case p of Fulfilled v \<Rightarrow> (onFulfilled, v) | Rejected e \<Rightarrow> (onRejected, e)) of
        (None, x) \<Rightarrow> (p, s)
      | (Some f, x) \<Rightarrow>
          (case f x s of
             (Returns y, s') \<Rightarrow> (Fulfilled y, s')
           | (Throws e, s') \<Rightarrow> (Rejected e, s')))"

text \<open>
  The loop over the response interceptors, as the later copy of the library (the one
  with the socket adapter and the task bridge) has it:
  \<^verbatim>\<open>
  while (responseInterceptors.length) {
    promise = promise.then(responseInterceptors.shift(), responseInterceptors.shift())
  }
  \<close>
\<close>

fun response_loop :: "'s jsfun option list \<Rightarrow> settled \<Rightarrow> 's \<Rightarrow> settled \<times> 's" where
  "response_loop [] promise s = (promise, s)"
| "response_loop [f] promise s = then_promise promise f None s"
| "response_loop (f # r # rest) promise s =
     (case then_promise promise f r s of (promise', s') \<Rightarrow> response_loop rest promise' s')"

text \<open>
  The same loop in \<open>weapp-axios.js\<close> at the root of the repository, where the result of
  \<open>then\<close> is dropped:
  \<^verbatim>\<open>
  while (responseInterceptors.length) {
    promise.then(responseInterceptors.shift(), responseInterceptors.shift())
  }
  \<close>
  Every pair is attached to the promise of the dispatch; the handlers run in the order of
  attachment when it settles.
\<close>

fun response_loop_root :: "'s jsfun option list \<Rightarrow> settled \<Rightarrow> 's \<Rightarrow> settled \<times> 's" where
  "response_loop_root [] promise s = (promise, s)"
| "response_loop_root [f] promise s = (promise, snd (then_promise promise f None s))"
| "response_loop_root (f # r # rest) promise s =
     (case then_promise promise f r s of (promise', s') \<Rightarrow> response_loop_root rest promise s')"

text \<open>
  \<open>Axios.prototype.request\<close> from the collection of the interceptors on; \<open>config\<close> is the
  merged config with its method set. \<open>dispatchRequest\<close> is a parameter here: it throws or
  returns a promise. A synchronous throw of the dispatch becomes \<open>Promise.reject(err)\<close>,
  returned at once, without the response interceptors.
\<close>

definition after_dispatch ::
  "('s jsfun option list \<Rightarrow> settled \<Rightarrow> 's \<Rightarrow> settled \<times> 's) \<Rightarrow> 's jsfun option list \<Rightarrow> outcome \<times> 's \<Rightarrow> outcome \<times> 's" where
  "after_dispatch loop responseInterceptors d =
     (case d of
        (Thrown err, s) \<Rightarrow> (Promise (Rejected err), s)
      | (Promise promise, s) \<Rightarrow>
          (case loop responseInterceptors promise s of (p, s') \<Rightarrow> (Promise p, s')))"

definition request_with ::
  "('s jsfun option list \<Rightarrow> settled \<Rightarrow> 's \<Rightarrow> settled \<times> 's) \<Rightarrow> (val \<Rightarrow> 's \<Rightarrow> outcome \<times> 's) \<Rightarrow>
   's handlers \<Rightarrow> 's handlers \<Rightarrow> val \<Rightarrow> 's \<Rightarrow> outcome \<times> 's" where
  "request_with loop dispatchRequest request_handlers response_handlers config s =
     (let requestInterceptors = forEach request_handlers unshiftRequestInterceptors [];
          responseInterceptors = forEach response_handlers pushResponseInterceptors []
      in case request_loop requestInterceptors config s of
           (Inl err, s') \<Rightarrow> (Thrown err, s')
         | (Inr newConfig, s') \<Rightarrow>
             after_dispatch loop responseInterceptors (dispatchRequest newConfig s'))"

definition request ::
  "(val \<Rightarrow> 's \<Rightarrow> outcome \<times> 's) \<Rightarrow> 's handlers \<Rightarrow> 's handlers \<Rightarrow> val \<Rightarrow> 's \<Rightarrow> outcome \<times> 's" where
  "request = request_with response_loop"

definition request_root ::
  "(val \<Rightarrow> 's \<Rightarrow> outcome \<times> 's) \<Rightarrow> 's handlers \<Rightarrow> 's handlers \<Rightarrow> val \<Rightarrow> 's \<Rightarrow> outcome \<times> 's" where
  "request_root = request_with response_loop_root"

text \<open>
  \<open>clean_run\<close> says that a stretch of the request interceptor list runs without a throw,
  and gives the config and the state it ends in.
\<close>

fun clean_run :: "'s jsfun option list \<Rightarrow> val \<Rightarrow> 's \<Rightarrow> (val \<times> 's) option" where
  "clean_run [] c s = Some (c, s)"
| "clean_run [f] c s = None"
| "clean_run (f # r # rest) c s =
     (case call f c s of (Returns c', s') \<Rightarrow> clean_run rest c' s' | (Throws e, s') \<Rightarrow> None)"

text \<open>
  Handlers and a dispatch for the examples. The state is a log. \<open>mark n\<close> wraps the string
  it receives and logs what it saw; \<open>fail_with n\<close> throws; \<open>dispatch_echo\<close> resolves with
  the config it was given.
\<close>

definition mark :: "string \<Rightarrow> string list jsfun" where
  "mark n v s =
     (case v of
        Str x \<Rightarrow> (Returns (Str (n @ ''('' @ x @ '')'')), s @ [n @ '':'' @ x])
      | _ \<Rightarrow> (Returns v, s @ [n]))"

definition fail_with :: "string \<Rightarrow> string list jsfun" where
  "fail_with n v s = (Throws (Str n), s @ [n])"

definition dispatch_echo :: "val \<Rightarrow> string list \<Rightarrow> outcome \<times> string list" where
  "dispatch_echo c s = (Promise (Fulfilled c), s @ [''dispatch''])"

text \<open>
  \<open>live hs\<close> lists the registrations still in force, in the order of registration, and
  \<open>handler_pair\<close> is the pair of handlers of one registration.
\<close>

fun live :: "'s handlers \<Rightarrow> 's interceptor list" where
  "live [] = []"
| "live (None # hs) = live hs"
| "live (Some i # hs) = i # live hs"

definition handler_pair :: "'s interceptor \<Rightarrow> 's jsfun option list" where
  "handler_pair i = [fulfilled i, rejected i]"

text \<open>
  Three registrations on one manager, in this order: \<open>A\<close>, then \<open>T\<close> whose fulfilled
  handler throws, then \<open>B\<close>; and two registrations \<open>A\<close>, then \<open>B\<close>.
\<close>

definition handlers_A_T_B :: "string list handlers" where
  "handlers_A_T_B =
     snd (use (snd (use (snd (use InterceptorManager (Some (mark ''A'')) None))
                        (Some (fail_with ''boom'')) (Some (mark ''T.rejected''))))
              (Some (mark ''B'')) None)"

definition handlers_A_B :: "string list handlers" where
  "handlers_A_B =
     snd (use (snd (use InterceptorManager (Some (mark ''A'')) None)) (Some (mark ''B'')) None)"

definition handlers_T :: "string list handlers" where
  "handlers_T =
     snd (use InterceptorManager (Some (fail_with ''boom'')) (Some (mark ''T.rejected'')))"

section \<open>Iteration helpers\<close>

text \<open>
  A step of a loop works on a state \<open>'st\<close>. It ends normally (\<open>Done\<close>) or by throwing a
  value (\<open>Raised\<close>), with the state it reached; \<open>None\<close> stands for a computation that
  does not come back: it ran out of fuel, or one of its loops never ends.
\<close>

datatype 'st res = Done 'st | Raised val 'st

text \<open>The state a step ends in, however it ends.\<close>

fun state_of :: "'st res \<Rightarrow> 'st" where
  "state_of (Done st) = st"
| "state_of (Raised e st) = st"

text \<open>
  The loops of \<open>utils.each\<close> and \<open>utils.forOwn\<close>: the keys are fixed when the loop starts,
  each value is read when its turn comes. None of the iteratees modelled here returns
  \<open>false\<close>, so the early \<open>break\<close> is not taken.
\<close>

fun each_keys ::
  "('st \<Rightarrow> 'k \<Rightarrow> val) \<Rightarrow> ('k \<Rightarrow> string) \<Rightarrow> (val \<Rightarrow> string \<Rightarrow> 'st \<Rightarrow> 'st res option) \<Rightarrow>
   'k list \<Rightarrow> 'st \<Rightarrow> 'st res option" where
  "each_keys rd name iteratee [] st = Some (Done st)"
| "each_keys rd name iteratee (k # ks) st =
     (case iteratee (rd st k) (name k) st of
        None \<Rightarrow> None
      | Some (Raised e st') \<Rightarrow> Some (Raised e st')
      | Some (Done st') \<Rightarrow> each_keys rd name iteratee ks st')"

text \<open>
  \<open>index_bound conv len\<close> is the number of rounds of \<open>while (++index < length)\<close> from
  \<open>index = -1\<close>; \<open>None\<close> when the loop never ends. The comparison converts \<open>length\<close> to
  a number. An integer up to \<open>2 ^ 53\<close> gives that many rounds; beyond it \<open>++index\<close> stops
  at \<open>2 ^ 53\<close>, the first integer whose successor is not a number of JavaScript, and the
  loop never ends. \<open>true\<close> counts as 1, and \<open>false\<close>, \<open>null\<close> and \<open>undefined\<close> give no
  round. What a string or an object converts to is the host's business (\<open>ToNumber\<close>, for an
  object after its \<open>valueOf\<close> or \<open>toString\<close>): the parameter \<open>conv\<close> gives the number of
  rounds for such a \<open>length\<close>, \<open>None\<close> when it converts to a number beyond \<open>2 ^ 53\<close>
  (\<open>Infinity\<close> is one). The conversion is taken to have no effect on the store.
\<close>

fun index_bound :: "(val \<Rightarrow> nat option) \<Rightarrow> val \<Rightarrow> nat option" where
  "index_bound conv (Num n) = (if n \<le> 2 ^ 53 then Some (nat n) else None)"
| "index_bound conv (Bool b) = Some (if b then 1 else 0)"
| "index_bound conv Null = Some 0"
| "index_bound conv Undefined = Some 0"
| "index_bound conv (Str s) = conv (Str s)"
| "index_bound conv (Error e) = conv (Error e)"
| "index_bound conv (Ref a) = conv (Ref a)"

text \<open>\<open>iterable[index]\<close> for a string, an array, or another object.\<close>

definition elem_read :: "heap \<Rightarrow> val \<Rightarrow> nat \<Rightarrow> val" where
  "elem_read h v i =
     (case v of
        Str s \<Rightarrow> (if i < length s then Str [s ! i] else Undefined)
      | Ref a \<Rightarrow>
          (case cell_at h a of
             None \<Rightarrow> Undefined
           | Some c \<Rightarrow>
               (if cls_of c = Array
                then (if i < length (elems c) then elems c ! i else Undefined)
                else lookup (props c) (digits i)))
      | _ \<Rightarrow> Undefined)"

text \<open>
  \<open>Object.keys(object)\<close> and \<open>iterable[key]\<close> for one of these keys. The indices of an
  array or a string come first.
\<close>

definition Object_keys :: "heap \<Rightarrow> val \<Rightarrow> string list" where
  "Object_keys h v =
     (case v of
        Str s \<Rightarrow> map digits [0 ..< length s]
      | Ref a \<Rightarrow>
          (case cell_at h a of
             None \<Rightarrow> []
           | Some c \<Rightarrow>
               (if cls_of c = Array then map digits [0 ..< length (elems c)] else [])
               @ map fst (props c))
      | _ \<Rightarrow> [])"

definition key_read :: "heap \<Rightarrow> val \<Rightarrow> string \<Rightarrow> val" where
  "key_read h v k =
     (case v of
        Ref a \<Rightarrow>
          (case cell_at h a of
             None \<Rightarrow> Undefined
           | Some c \<Rightarrow>
               (if cls_of c = Array then
                  (case find (\<lambda>i. digits i = k) [0 ..< length (elems c)] of
                     Some i \<Rightarrow> elems c ! i
                   | None \<Rightarrow> lookup (props c) k)
                else lookup (props c) k))
      | Str s \<Rightarrow>
          (case find (\<lambda>i. digits i = k) [0 ..< length s] of
             Some i \<Rightarrow> Str [s ! i]
           | None \<Rightarrow> Undefined)
      | _ \<Rightarrow> Undefined)"

definition forOwn ::
  "('st \<Rightarrow> heap) \<Rightarrow> val \<Rightarrow> (val \<Rightarrow> string \<Rightarrow> 'st \<Rightarrow> 'st res option) \<Rightarrow> 'st \<Rightarrow> 'st res option" where
  "forOwn heap_of object iteratee st =
     each_keys (\<lambda>st' k. key_read (heap_of st') object k) (\<lambda>k. k) iteratee
       (Object_keys (heap_of st) object) st"

text \<open>
  \<open>utils.each(collection, iteratee)\<close>. \<open>heap_of\<close> reads the store out of the loop state,
  and \<open>conv\<close> is the host's conversion of a \<open>length\<close> that is a string or an object.
\<close>

definition each ::
  "(val \<Rightarrow> nat option) \<Rightarrow> ('st \<Rightarrow> heap) \<Rightarrow> val \<Rightarrow> (val \<Rightarrow> string \<Rightarrow> 'st \<Rightarrow> 'st res option) \<Rightarrow> 'st \<Rightarrow> 'st res option" where
  "each conv heap_of collection iteratee st =
     (if collection = Null then Some (Done st)
      else
        (case isArrayLike (heap_of st) collection of
           Inl e \<Rightarrow> Some (Raised (Error e) st)
         | Inr False \<Rightarrow> forOwn heap_of collection iteratee st
         | Inr True \<Rightarrow>
             (case index_bound conv (get (heap_of st) collection ''length'') of
                None \<Rightarrow> None
              | Some n \<Rightarrow>
                  each_keys (\<lambda>st' i. elem_read (heap_of st') collection i) digits iteratee
                    [0 ..< n] st)))"

section \<open>Task bridge\<close>

text \<open>
  The host's task handle is known by the registration methods it has; \<open>registered\<close> records
  the methods the library called with a bridging function, in order. What the library makes
  happen outside is logged: a call of a user function with its arguments, and a diagnostic
  print of a task event. A user function may throw: \<open>ufun f args\<close> is \<open>Some e\<close> then.
\<close>

record task =
  methods :: "string list"
  registered :: "string list"

datatype tevent = UserCall val "val list" | PrintTask string val

definition legalTasks :: "string list" where
  "legalTasks = [''abort'', ''close'', ''send'']"

definition legalCallbackTasks :: "string list" where
  "legalCallbackTasks =
     [''onProgressUpdate'', ''offProgressUpdate'', ''onHeadersReceived'', ''offHeadersReceived'',
      ''onChunkReceived'', ''offChunkReceived'', ''onOpen'', ''onMessage'', ''onError'', ''onClose'']"

definition user_call ::
  "(val \<Rightarrow> val list \<Rightarrow> val option) \<Rightarrow> val \<Rightarrow> val list \<Rightarrow> task \<times> tevent list \<Rightarrow> (task \<times> tevent list) res" where
  "user_call ufun f args st =
     (case ufun f args of
        None \<Rightarrow> Done (fst st, snd st @ [UserCall f args])
      | Some e \<Rightarrow> Raised e (fst st, snd st @ [UserCall f args]))"

text \<open>
  The iteratee \<open>setRequestTask(value, key)\<close>. \<open>legalTasks\<close> is declared by the source and
  never consulted: the \<open>else\<close> branch takes every key that is not a callback key.
\<close>

definition setRequestTask ::
  "heap \<Rightarrow> (val \<Rightarrow> val list \<Rightarrow> val option) \<Rightarrow> val \<Rightarrow> val \<Rightarrow> val \<Rightarrow> string \<Rightarrow> task \<times> tevent list \<Rightarrow>
   (task \<times> tevent list) res option" where
  "setRequestTask h ufun requestTask configTask value key st =
     (if isFunction h value \<and> truthy (get h configTask key) then
        (if key \<in> set legalCallbackTasks then
           (if key \<in> set (methods (fst st))
            then Some (Done ((fst st)\<lparr>registered := registered (fst st) @ [key]\<rparr>, snd st))
            else Some (Raised (Error TypeError) st))
         else
           (if isFunction h (get h configTask key)
            then Some (user_call ufun (get h configTask key) [requestTask] st)
            else Some (Raised (Error TypeError) st)))
      else Some (Done st))"

text \<open>
  \<open>adapterTaskSettle(requestTask, configTask, config)\<close>. The result is the state of the
  handle and the log, or the exception that ended the loop.
\<close>

definition adapterTaskSettle ::
  "(val \<Rightarrow> nat option) \<Rightarrow> heap \<Rightarrow> (val \<Rightarrow> val list \<Rightarrow> val option) \<Rightarrow> val \<Rightarrow> val \<Rightarrow> task \<times> tevent list \<Rightarrow>
   (task \<times> tevent list) res option" where
  "adapterTaskSettle conv h ufun requestTask configTask st =
     (if \<not> truthy requestTask then Some (Done st)
      else if \<not> isPlainObject h configTask then Some (Done st)
      else each conv (\<lambda>st'. h) configTask (setRequestTask h ufun requestTask configTask) st)"

text \<open>
  \<open>requestTaskCallback(res)\<close>, the bridging function registered for \<open>key\<close>, when the host
  calls it: the user handler gets the payload and the handle, then
  \<open>localPrint(config, key, res)\<close> runs:
  \<^verbatim>\<open>
  if (c && c.openLocalPrinter) { c.printManager.printTask(c, k, r) }
  \<close>
  \<open>openLocalPrinter\<close> says that \<open>config\<close> and \<open>config.openLocalPrinter\<close> are truthy, and
  \<open>printManager\<close> that \<open>config.printManager\<close> is the library's manager: without it the
  call on it throws a \<open>TypeError\<close>, after the user handler has run.
\<close>

definition requestTaskCallback ::
  "heap \<Rightarrow> (val \<Rightarrow> val list \<Rightarrow> val option) \<Rightarrow> val \<Rightarrow> val \<Rightarrow> bool \<Rightarrow> bool \<Rightarrow> string \<Rightarrow> val \<Rightarrow>
   task \<times> tevent list \<Rightarrow> (task \<times> tevent list) res" where
  "requestTaskCallback h ufun requestTask configTask openLocalPrinter printManager key res st =
     (if \<not> isFunction h (get h configTask key) then Raised (Error TypeError) st
      else
        (case user_call ufun (get h configTask key) [res, requestTask] st of
           Raised e st' \<Rightarrow> Raised e st'
         | Done st' \<Rightarrow>
             (if \<not> openLocalPrinter then Done st'
              else if \<not> printManager then Raised (Error TypeError) st'
              else Done (fst st', snd st' @ [PrintTask key res]))))"

definition quiet :: "val \<Rightarrow> val list \<Rightarrow> val option" where
  "quiet f args = None"

section \<open>Dispatcher: the callbacks on the adapter's promise\<close>

text \<open>
  \<open>dispatchRequest\<close> returns \<open>adapter.adapter(config).then(onAdapterResolve, onAdapterReject)\<close>.
  The response of the host has a numeric \<open>statusCode\<close> and a \<open>data\<close>; the fields of the
  config that the two callbacks read are: \<open>validateStatus\<close> (a predicate on the status, or
  not a function at all: \<open>None\<close>), \<open>forcedJSONParsing\<close>, \<open>openLocalPrinter\<close> and
  \<open>openLocalLogger\<close>, and whether \<open>printManager\<close> and \<open>logManager\<close> are the library's
  managers (a missing manager makes the call on it throw a \<open>TypeError\<close>). \<open>JSON.parse\<close> is
  the host's: it is the parameter \<open>JSON_parse\<close>, which fails with a \<open>SyntaxError\<close>
  (\<open>None\<close>) or allocates the parsed value in the store.
\<close>

record response =
  statusCode :: int
  data :: val

record dispatch_config =
  validateStatus :: "(int \<Rightarrow> bool) option"
  forcedJSONParsing :: val
  openLocalPrinter :: val
  printManager :: bool
  openLocalLogger :: val
  logManager :: bool

datatype devent = PrintRequest response | LogSet response

text \<open>The default \<open>validateStatus\<close> of \<open>defaults\<close>: \<open>status >= 200 && status < 300\<close>.\<close>

definition validateStatus_default :: "int \<Rightarrow> bool" where
  "validateStatus_default status = (200 \<le> status \<and> status < 300)"

text \<open>
  The JSON step of \<open>onAdapterResolve\<close>. A \<open>SyntaxError\<close> of \<open>JSON.parse\<close> is caught and
  replaced by the library's own data-parsing error.
\<close>

definition forced_parse ::
  "(string \<Rightarrow> heap \<Rightarrow> (val \<times> heap) option) \<Rightarrow> (int \<Rightarrow> bool) \<Rightarrow> dispatch_config \<Rightarrow> response \<Rightarrow> heap \<Rightarrow>
   val + response \<times> heap" where
  "forced_parse JSON_parse validate config response h =
     (if validate (statusCode response) \<and> truthy (forcedJSONParsing config) then
        (if isString (data response) then
           (case data response of
              Str rawData \<Rightarrow>
                (case JSON_parse rawData h of
                   None \<Rightarrow> Inl (Error DataParseError)
                 | Some (v, h') \<Rightarrow> Inr (response\<lparr>data := v\<rparr>, h'))
            | _ \<Rightarrow> Inr (response, h))
         else Inr (response, h))
      else Inr (response, h))"

definition onAdapterResolve ::
  "(string \<Rightarrow> heap \<Rightarrow> (val \<times> heap) option) \<Rightarrow> dispatch_config \<Rightarrow> response \<Rightarrow> heap \<times> devent list \<Rightarrow>
   (val + response) \<times> heap \<times> devent list" where
  "onAdapterResolve JSON_parse config response st =
     (case validateStatus config of
        None \<Rightarrow> (Inl (Error TypeError), st)
      | Some validate \<Rightarrow>
          (case forced_parse JSON_parse validate config response (fst st) of
             Inl e \<Rightarrow> (Inl e, st)
           | Inr (response', h') \<Rightarrow>
               (if truthy (openLocalPrinter config) \<and> \<not> printManager config
                then (Inl (Error TypeError), (h', snd st))
                else
                  let log1 = (if truthy (openLocalPrinter config)
                              then snd st @ [PrintRequest response'] else snd st);
                      log2 = (if truthy (openLocalLogger config) \<and> logManager config
                              then log1 @ [LogSet response'] else log1)
                  in (Inr response', (h', log2)))))"

definition onAdapterReject :: "val \<Rightarrow> heap \<times> devent list \<Rightarrow> (val + response) \<times> heap \<times> devent list" where
  "onAdapterReject err st = (Inl err, st)"

text \<open>
  The adapter's promise settles with the host's response or with the payload of the host's
  failure callback; the promise of \<open>dispatchRequest\<close> settles accordingly (\<open>Inl\<close>: rejected).
\<close>

definition dispatch_settle ::
  "(string \<Rightarrow> heap \<Rightarrow> (val \<times> heap) option) \<Rightarrow> dispatch_config \<Rightarrow> val + response \<Rightarrow> heap \<times> devent list \<Rightarrow>
   (val + response) \<times> heap \<times> devent list" where
  "dispatch_settle JSON_parse config adapter_promise st =
     (case adapter_promise of
        Inr response \<Rightarrow> onAdapterResolve JSON_parse config response st
      | Inl err \<Rightarrow> onAdapterReject err st)"

text \<open>
  A \<open>JSON.parse\<close> that knows one text, \<open>{"a":1}\<close>, and the config of \<open>defaults\<close> in a
  release build (no printing, no logging).
\<close>

definition json_a1 :: string where
  "json_a1 = [CHR ''{'', CHR 0x22, CHR ''a'', CHR 0x22, CHR '':'', CHR ''1'', CHR ''}'']"

definition parse_a1 :: "string \<Rightarrow> heap \<Rightarrow> (val \<times> heap) option" where
  "parse_a1 s h =
     (if s = json_a1
      then Some (Ref (length h), h @ [Cell Plain [(''a'', Num 1)] []])
      else None)"

definition release_config :: dispatch_config where
  "release_config =
     \<lparr>validateStatus = Some validateStatus_default, forcedJSONParsing = Bool True,
      openLocalPrinter = Bool False, printManager = False,
      openLocalLogger = Bool False, logManager = False\<rparr>"

section \<open>Deep merge\<close>

text \<open>
  \<open>result[key] = v\<close> on a property list: an existing key keeps its place, a new one goes
  last. (\<open>Object.keys\<close> lists the keys that are array indices before the others, in
  ascending order: a new index written after a key that is not one would be listed before
  it. The order of the keys of a result enters one statement below, the deep equality of
  \<open>merge(a, a)\<close> and \<open>a\<close>, where the keys are written in the order \<open>a\<close> lists them. The
  key \<open>__proto__\<close> is written like any other.)
\<close>

fun put :: "(string \<times> val) list \<Rightarrow> string \<Rightarrow> val \<Rightarrow> (string \<times> val) list" where
  "put [] k v = [(k, v)]"
| "put (p # ps) k v = (if fst p = k then (k, v) # ps else p # put ps k v)"

text \<open>
  \<open>utils.merge\<close> calls itself on nested plain objects, and nothing in JavaScript keeps an
  object from containing itself: the recursion is bounded by fuel, and \<open>merge conv 0\<close> gives
  up. A level of fuel is a level of nesting. (On an object that contains itself the
  recursion of the code has no end; an engine stops it with a \<open>RangeError\<close> when its stack
  is exhausted. The model has no stack: such a call does not come back, \<open>None\<close>.)

  The accumulator \<open>result\<close> is reachable from nowhere but the running call until that call
  returns it: the loop state carries its property list next to the store, and the object is
  allocated when \<open>merge\<close> returns.

  \<open>assignValue(value, key)\<close>, with \<open>mrg\<close> for the recursive \<open>merge\<close>:
  \<^verbatim>\<open>
  if (isPlainObject(result[key]) && isPlainObject(value)) result[key] = merge(result[key], value)
  else if (isPlainObject(value)) result[key] = merge({}, value)
  else if (Array.isArray(value)) result[key] = value.slice()
  else result[key] = value
  \<close>
\<close>

definition assignValue ::
  "(heap \<Rightarrow> val list \<Rightarrow> ((val + val) \<times> heap) option) \<Rightarrow> val \<Rightarrow> string \<Rightarrow>
   heap \<times> (string \<times> val) list \<Rightarrow> (heap \<times> (string \<times> val) list) res option" where
  "assignValue mrg value key st =
     (let h = fst st; result = snd st in
      if isPlainObject h (lookup result key) \<and> isPlainObject h value then
        (case mrg h [lookup result key, value] of
           None \<Rightarrow> None
         | Some (Inl e, h') \<Rightarrow> Some (Raised e (h', result))
         | Some (Inr v, h') \<Rightarrow> Some (Done (h', put result key v)))
      else if isPlainObject h value then
        (case alloc h (Cell Plain [] []) of
           (a, h1) \<Rightarrow>
             (case mrg h1 [Ref a, value] of
                None \<Rightarrow> None
              | Some (Inl e, h') \<Rightarrow> Some (Raised e (h', result))
              | Some (Inr v, h') \<Rightarrow> Some (Done (h', put result key v))))
      else if isArray h value then
        (case value of
           Ref a \<Rightarrow>
             (case alloc h (Cell Array [] (elems (h ! a))) of
                (b, h') \<Rightarrow> Some (Done (h', put result key (Ref b))))
         | _ \<Rightarrow> Some (Done st))
      else Some (Done (h, put result key value)))"

text \<open>The loop \<open>for (let i = 0; i < args.length; i++) utils.each(args[i], assignValue)\<close>.\<close>

fun merge_sources ::
  "(val \<Rightarrow> nat option) \<Rightarrow> (heap \<Rightarrow> val list \<Rightarrow> ((val + val) \<times> heap) option) \<Rightarrow> val list \<Rightarrow>
   heap \<times> (string \<times> val) list \<Rightarrow> (heap \<times> (string \<times> val) list) res option" where
  "merge_sources conv mrg [] st = Some (Done st)"
| "merge_sources conv mrg (a # as) st =
     (case each conv fst a (assignValue mrg) st of
        None \<Rightarrow> None
      | Some (Raised e st') \<Rightarrow> Some (Raised e st')
      | Some (Done st') \<Rightarrow> merge_sources conv mrg as st')"

text \<open>
  \<open>merge conv n h args\<close>: the call \<open>utils.merge(...args)\<close> in store \<open>h\<close>. It returns the new
  object (\<open>Inr\<close>) or throws (\<open>Inl\<close>), and the store it leaves.
\<close>

definition merge_body ::
  "(val \<Rightarrow> nat option) \<Rightarrow> (heap \<Rightarrow> val list \<Rightarrow> ((val + val) \<times> heap) option) \<Rightarrow> heap \<Rightarrow> val list \<Rightarrow> ((val + val) \<times> heap) option" where
  "merge_body conv mrg h args =
     (case merge_sources conv mrg args (h, []) of
        None \<Rightarrow> None
      | Some (Raised e st) \<Rightarrow> Some (Inl e, fst st)
      | Some (Done st) \<Rightarrow>
          (case alloc (fst st) (Cell Plain (snd st) []) of (a, h') \<Rightarrow> Some (Inr (Ref a), h')))"

primrec merge :: "(val \<Rightarrow> nat option) \<Rightarrow> nat \<Rightarrow> heap \<Rightarrow> val list \<Rightarrow> ((val + val) \<times> heap) option" where
  "merge conv 0 = (\<lambda>h args. None)"
| "merge conv (Suc n) = merge_body conv (merge conv n)"

text \<open>\<open>helpers.mergeConfig(config1, config2)\<close> is \<open>utils.merge(config1, config2)\<close>.\<close>

definition mergeConfig :: "(val \<Rightarrow> nat option) \<Rightarrow> nat \<Rightarrow> heap \<Rightarrow> val \<Rightarrow> val \<Rightarrow> ((val + val) \<times> heap) option" where
  "mergeConfig conv n h config1 config2 = merge conv n h [config1, config2]"

section \<open>Instances, the singleton proxy and the factory\<close>

text \<open>
  An instance has its \<open>defaults\<close>, its two interceptor managers (the handlers are function
  values here) and, once the factory has seen it, the method \<open>create\<close>: a closure over the
  factory's argument \<open>defaultConfig\<close>, which is all that \<open>create\<close> records. The world is the
  object store, the instances, and the variable \<open>instance\<close> that \<open>ProxyAxios\<close> closes over.
\<close>

record axios =
  defaults :: val
  request_manager :: "(val \<times> val) option list"
  response_manager :: "(val \<times> val) option list"
  create_closure :: "val option"

record world =
  heap :: heap
  instances :: "axios list"
  singleton :: "nat option"

text \<open>\<open>new Axios(instanceConfig)\<close>.\<close>

definition Axios :: "world \<Rightarrow> val \<Rightarrow> nat \<times> world" where
  "Axios w instanceConfig =
     (length (instances w),
      w\<lparr>instances := instances w @
          [\<lparr>defaults = instanceConfig, request_manager = [], response_manager = [],
            create_closure = None\<rparr>]\<rparr>)"

text \<open>
  \<open>new ProxyAxios(defaultConfig)\<close>: the function returns an object, so that object is the
  value of the \<open>new\<close> expression.
\<close>

definition ProxyAxios :: "world \<Rightarrow> val \<Rightarrow> nat \<times> world" where
  "ProxyAxios w defaultConfig =
     (case singleton w of
        Some i \<Rightarrow> (i, w)
      | None \<Rightarrow> (case Axios w defaultConfig of (i, w') \<Rightarrow> (i, w'\<lparr>singleton := Some i\<rparr>)))"

text \<open>\<open>createInstance(defaultConfig)\<close>: the instance's address, or the exception.\<close>

definition createInstance :: "world \<Rightarrow> val \<Rightarrow> (val + nat) \<times> world" where
  "createInstance w defaultConfig =
     (if \<not> truthy defaultConfig then (Inl (Error NonConfigError), w)
      else
        let useSingleton = get (heap w) defaultConfig ''useSingleton'' in
        case (if truthy useSingleton then ProxyAxios w defaultConfig else Axios w defaultConfig) of
          (i, w') \<Rightarrow>
            (if create_closure (instances w' ! i) = None
             then (Inr i, w'\<lparr>instances := (instances w')[i := (instances w' ! i)\<lparr>create_closure := Some defaultConfig\<rparr>]\<rparr>)
             else (Inr i, w')))"

text \<open>
  What the caller may have done to an object before handing it over:
  \<open>Object.preventExtensions\<close>, \<open>Object.seal\<close> and \<open>Object.freeze\<close> make it
  non-extensible (no property can be added to it), \<open>Object.freeze\<close> makes the properties
  it has read-only as well, and \<open>Object.defineProperty\<close> can make a single property
  read-only. The library does none of these itself, so the locks of the objects are a
  parameter: \<open>locks a\<close> says whether the object at address \<open>a\<close> is extensible, and which
  of its properties are read-only. \<open>writable locks h a k\<close>: the assignment of a value to
  property \<open>k\<close> of that object takes effect.
\<close>

datatype lock = Lock (extensible: bool) (read_only: "string list")

definition writable :: "(addr \<Rightarrow> lock) \<Rightarrow> heap \<Rightarrow> addr \<Rightarrow> string \<Rightarrow> bool" where
  "writable locks h a k =
     (if k \<in> set (map fst (props (h ! a)))
      then k \<notin> set (read_only (locks a))
      else extensible (locks a))"

text \<open>
  The assignment \<open>o[k] = v\<close> on a caller's value, for a key that is neither an array index
  nor \<open>length\<close>: it throws on \<open>null\<close> and \<open>undefined\<close>, writes the property of an object
  that can be written, and is dropped on an object that cannot and on any other primitive
  (the source has no strict-mode directive).
\<close>

definition assign :: "(addr \<Rightarrow> lock) \<Rightarrow> heap \<Rightarrow> val \<Rightarrow> string \<Rightarrow> val \<Rightarrow> val + heap" where
  "assign locks h o' k v =
     (case o' of
        Undefined \<Rightarrow> Inl (Error TypeError)
      | Null \<Rightarrow> Inl (Error TypeError)
      | Ref a \<Rightarrow>
          (case cell_at h a of
             None \<Rightarrow> Inr h
           | Some c \<Rightarrow>
               (if writable locks h a k
                then Inr (h[a := Cell (cls_of c) (put (props c) k v) (elems c)])
                else Inr h))
      | _ \<Rightarrow> Inr h)"

text \<open>
  \<open>instance.create(instanceConfig)\<close>:
  \<^verbatim>\<open>
  instanceConfig.useSingleton = false
  return createInstance(helpers.mergeConfig(defaultConfig, instanceConfig))
  \<close>
  The result is what the call gives back and the world it has reached. What it gives back
  is \<open>None\<close> when the merge does not come back (its fuel does not suffice, or one of its
  loops never ends); the world is then the one the assignment has left, for the assignment
  comes first, whatever the merge does after it.
\<close>

definition create ::
  "(val \<Rightarrow> nat option) \<Rightarrow> (addr \<Rightarrow> lock) \<Rightarrow> nat \<Rightarrow> world \<Rightarrow> nat \<Rightarrow> val \<Rightarrow> (val + nat) option \<times> world" where
  "create conv locks n w i instanceConfig =
     (if \<not> i < length (instances w) then (Some (Inl (Error TypeError)), w)
      else
        (case create_closure (instances w ! i) of
           None \<Rightarrow> (Some (Inl (Error TypeError)), w)
         | Some defaultConfig \<Rightarrow>
             (case assign locks (heap w) instanceConfig ''useSingleton'' (Bool False) of
                Inl e \<Rightarrow> (Some (Inl e), w)
              | Inr h1 \<Rightarrow>
                  (case mergeConfig conv n h1 defaultConfig instanceConfig of
                     None \<Rightarrow> (None, w\<lparr>heap := h1\<rparr>)
                   | Some (Inl e, h2) \<Rightarrow> (Some (Inl e), w\<lparr>heap := h2\<rparr>)
                   | Some (Inr config, h2) \<Rightarrow>
                       (case createInstance (w\<lparr>heap := h2\<rparr>) config of
                          (r, w') \<Rightarrow> (Some r, w'))))))"

text \<open>A run of \<open>createInstance\<close> calls, one after the other, with the results in order.\<close>

fun createInstances :: "world \<Rightarrow> val list \<Rightarrow> (val + nat) list \<times> world" where
  "createInstances w [] = ([], w)"
| "createInstances w (c # cs) =
     (case createInstance w c of
        (r, w') \<Rightarrow> (case createInstances w' cs of (rs, w'') \<Rightarrow> (r # rs, w'')))"

definition world0 :: "heap \<Rightarrow> world" where
  "world0 h = \<lparr>heap = h, instances = [], singleton = None\<rparr>"

text \<open>
  \<open>appends_only mrg\<close>: whatever \<open>mrg\<close> returns, the store it leaves is the store it found
  with new cells appended.
\<close>

definition appends_only :: "(heap \<Rightarrow> val list \<Rightarrow> ((val + val) \<times> heap) option) \<Rightarrow> bool" where
  "appends_only mrg = (\<forall>h args r h'. mrg h args = Some (r, h') \<longrightarrow> prefix h h')"

text \<open>
  Two stores for the examples: two configs that both ask for the singleton, and a singleton
  config with an overrides object \<open>{baseURL: 'x'}\<close>.
\<close>

definition two_singleton_configs :: heap where
  "two_singleton_configs =
     [Cell Plain [(''useSingleton'', Bool True)] [],
      Cell Plain [(''useSingleton'', Bool True), (''baseURL'', Str ''x'')] []]"

definition config_and_overrides :: heap where
  "config_and_overrides =
     [Cell Plain [(''useSingleton'', Bool True)] [],
      Cell Plain [(''baseURL'', Str ''x'')] []]"

definition world1 :: world where
  "world1 =
     \<lparr>heap = config_and_overrides,
      instances = [\<lparr>defaults = Ref 0, request_manager = [], response_manager = [],
                    create_closure = Some (Ref 0)\<rparr>],
      singleton = Some 0\<rparr>"

text \<open>
  The sources \<open>merge\<close> passes over: \<open>null\<close>, and the values that are neither mappings nor
  sequences (numbers, booleans, the library's \<open>Error\<close> objects).
\<close>

definition inert :: "val \<Rightarrow> bool" where
  "inert v = (case v of Null \<Rightarrow> True | Bool b \<Rightarrow> True | Num n \<Rightarrow> True | Error e \<Rightarrow> True | _ \<Rightarrow> False)"

text \<open>
  The world after \<open>create({baseURL: 'x'})\<close> on the singleton of \<open>world1\<close>; and the
  same call with the overrides object frozen: the locks of the two calls, and the world
  after the second.
\<close>

definition world2 :: world where
  "world2 =
     \<lparr>heap = [Cell Plain [(''useSingleton'', Bool True)] [],
              Cell Plain [(''baseURL'', Str ''x''), (''useSingleton'', Bool False)] [],
              Cell Plain [(''useSingleton'', Bool False), (''baseURL'', Str ''x'')] []],
      instances = [\<lparr>defaults = Ref 0, request_manager = [], response_manager = [],
                    create_closure = Some (Ref 0)\<rparr>,
                   \<lparr>defaults = Ref 2, request_manager = [], response_manager = [],
                    create_closure = Some (Ref 2)\<rparr>],
      singleton = Some 0\<rparr>"

definition unlocked :: "addr \<Rightarrow> lock" where
  "unlocked a = Lock True []"

definition frozen_overrides :: "addr \<Rightarrow> lock" where
  "frozen_overrides a = (if a = 1 then Lock False [''baseURL''] else Lock True [])"

definition world3 :: world where
  "world3 =
     \<lparr>heap = [Cell Plain [(''useSingleton'', Bool True)] [],
              Cell Plain [(''baseURL'', Str ''x'')] [],
              Cell Plain [(''useSingleton'', Bool True), (''baseURL'', Str ''x'')] []],
      instances = [\<lparr>defaults = Ref 0, request_manager = [], response_manager = [],
                    create_closure = Some (Ref 0)\<rparr>],
      singleton = Some 0\<rparr>"

section \<open>Notions for the properties of the deep merge\<close>

text \<open>
  \<open>fits conv n h v\<close>: the walk of \<open>merge\<close> over \<open>v\<close> ends within \<open>n\<close> levels of
  nesting. \<open>v\<close> is a plain object of store \<open>h\<close>. If it has an own property \<open>length\<close>,
  \<open>utils.each\<close> walks its indices: \<open>index_bound\<close> gives a number of rounds for that
  \<open>length\<close>, and the values under the indices of these rounds are fit. Otherwise
  \<open>utils.each\<close> walks its keys, and all its values are fit. A value is fit,
  \<open>okval conv n h x\<close>, when it is not a reference, or is a reference to an object of the
  store which, if it is a plain object, fits \<open>n\<close> in its turn. So a plain object that the
  walk reaches does not contain itself.
\<close>

fun fits :: "(val \<Rightarrow> nat option) \<Rightarrow> nat \<Rightarrow> heap \<Rightarrow> val \<Rightarrow> bool" where
  "fits conv 0 h v = False"
| "fits conv (Suc n) h v =
     (case v of
        Ref a \<Rightarrow>
          a < length h \<and> cls_of (h ! a) = Plain
          \<and> (if ''length'' \<in> set (map fst (props (h ! a)))
             then
               (case index_bound conv (lookup (props (h ! a)) ''length'') of
                  None \<Rightarrow> False
                | Some m \<Rightarrow>
                    (\<forall>i \<in> set [0 ..< m].
                       case lookup (props (h ! a)) (digits i) of
                         Ref b \<Rightarrow> b < length h \<and> (cls_of (h ! b) = Plain \<longrightarrow> fits conv n h (Ref b))
                       | _ \<Rightarrow> True))
             else
               (\<forall>x \<in> set (map snd (props (h ! a))).
                  case x of
                    Ref b \<Rightarrow> b < length h \<and> (cls_of (h ! b) = Plain \<longrightarrow> fits conv n h x)
                  | _ \<Rightarrow> True))
      | _ \<Rightarrow> False)"

definition okval :: "(val \<Rightarrow> nat option) \<Rightarrow> nat \<Rightarrow> heap \<Rightarrow> val \<Rightarrow> bool" where
  "okval conv n h x =
     (case x of
        Ref b \<Rightarrow> b < length h \<and> (cls_of (h ! b) = Plain \<longrightarrow> fits conv n h x)
      | _ \<Rightarrow> True)"

text \<open>
  \<open>plain_tree n h v\<close>: \<open>v\<close> is a plain object of store \<open>h\<close> nested at most \<open>n\<close> deep,
  every reference in it is to an object of the store, and no plain object in it, down to
  depth \<open>n\<close>, has an own property \<open>length\<close> (which would make \<open>utils.each\<close> take it
  for a sequence), an own property \<open>__proto__\<close> (which \<open>result[key] = v\<close> would not copy:
  that assignment changes the prototype of \<open>result\<close>) or the same key twice.
\<close>

fun plain_tree :: "nat \<Rightarrow> heap \<Rightarrow> val \<Rightarrow> bool" where
  "plain_tree 0 h v = False"
| "plain_tree (Suc n) h v =
     (case v of
        Ref a \<Rightarrow>
          a < length h \<and> cls_of (h ! a) = Plain
          \<and> distinct (map fst (props (h ! a)))
          \<and> ''length'' \<notin> set (map fst (props (h ! a)))
          \<and> ''__proto__'' \<notin> set (map fst (props (h ! a)))
          \<and> (\<forall>x \<in> set (map snd (props (h ! a))).
                case x of
                  Ref b \<Rightarrow> b < length h \<and> (cls_of (h ! b) = Plain \<longrightarrow> plain_tree n h x)
                | _ \<Rightarrow> True)
      | _ \<Rightarrow> False)"




text \<open>
  \<open>fresh h0 h x\<close>: if \<open>x\<close> is an array or a plain object of \<open>h\<close>, it is not one of the
  objects of \<open>h0\<close>.
\<close>

definition fresh :: "heap \<Rightarrow> heap \<Rightarrow> val \<Rightarrow> bool" where
  "fresh h0 h x = (isArray h x \<or> isPlainObject h x \<longrightarrow> (\<exists>c. x = Ref c \<and> length h0 \<le> c))"

text \<open>
  The invariant of the loops of one \<open>merge\<close> call that started in store \<open>h0\<close>, on the loop
  state (store, property list of \<open>result\<close>); and what is assumed of the recursive call.
\<close>

definition merge_inv :: "(val \<Rightarrow> nat option) \<Rightarrow> nat \<Rightarrow> heap \<Rightarrow> heap \<times> (string \<times> val) list \<Rightarrow> bool" where
  "merge_inv conv n h0 st =
     (prefix h0 (fst st) \<and> ''length'' \<notin> set (map fst (snd st))
      \<and> (\<forall>x \<in> set (map snd (snd st)). okval conv n (fst st) x \<and> fresh h0 (fst st) x))"

definition total_on :: "(val \<Rightarrow> nat option) \<Rightarrow> nat \<Rightarrow> (heap \<Rightarrow> val list \<Rightarrow> ((val + val) \<times> heap) option) \<Rightarrow> bool" where
  "total_on conv n mrg =
     (\<forall>h args. args \<noteq> [] \<and> (\<forall>v \<in> set args. fits conv n h v) \<longrightarrow>
        (\<exists>a ext. mrg h args = Some (Inr (Ref a), h @ ext) \<and> length h \<le> a
                  \<and> fits conv n (h @ ext) (Ref a)))"

text \<open>
  For the idempotence of \<open>merge\<close>: \<open>tokval n h x\<close> says of a property value of the target
  what \<open>okval\<close> says, with \<open>plain_tree\<close> for \<open>fits\<close>; \<open>sim n h x t\<close> says that \<open>x\<close> is a
  plain object with the keys of \<open>t\<close> and values deeply equal to those of \<open>t\<close>;
  \<open>empty_obj h x\<close> that \<open>x\<close> is a plain object without properties. \<open>idem_on n mrg\<close> is what
  is assumed of the recursive call, and \<open>pass_inv\<close> the invariant of a pass over one source
  whose target has the property list \<open>T\<close>.
\<close>

definition tokval :: "nat \<Rightarrow> heap \<Rightarrow> val \<Rightarrow> bool" where
  "tokval n h x =
     (case x of
        Ref b \<Rightarrow> b < length h \<and> (cls_of (h ! b) = Plain \<longrightarrow> plain_tree n h x)
      | _ \<Rightarrow> True)"


definition empty_obj :: "heap \<Rightarrow> val \<Rightarrow> bool" where
  "empty_obj h x =
     (case x of
        Ref e \<Rightarrow> e < length h \<and> cls_of (h ! e) = Plain \<and> props (h ! e) = []
      | _ \<Rightarrow> False)"






text \<open>
  A store is closed when every reference held by one of its objects, as a property value or
  as an array element, is to an object of the store.

  \<open>copied d h h' x\<close>: if the value \<open>x\<close> is an array or a plain object of \<open>h'\<close>, it is
  not one of the objects of \<open>h\<close>, and the same holds of the property values of \<open>x\<close> when
  \<open>x\<close> is a plain object, and so on through nested plain objects down to depth \<open>d\<close>.
  \<open>new_object d h h' v\<close>: \<open>v\<close> is an object of \<open>h'\<close> that \<open>h\<close> has not, and its
  property values are copied in that sense.

  \<open>sound mrg\<close> is what is assumed of the recursive call, and \<open>sound_inv\<close> the invariant
  of the loops of a call that started in store \<open>h0\<close>, where nothing is asked of the sources.
\<close>

definition valid :: "heap \<Rightarrow> val \<Rightarrow> bool" where
  "valid h x = (case x of Ref b \<Rightarrow> b < length h | _ \<Rightarrow> True)"






text \<open>
  A conversion for the examples, in none of which a \<open>length\<close> is a string or an object; and
  a plain object that contains itself, \<open>a.self = a\<close>.
\<close>

definition no_rounds :: "val \<Rightarrow> nat option" where
  "no_rounds v = Some 0"

definition self_object :: heap where
  "self_object = [Cell Plain [(''self'', Ref 0)] []]"

text \<open>
  Two more stores for the examples: an array inside an array under a key, \<open>{x: [[1]]}\<close>
  (object 2, the inner array being object 0); and a plain object whose \<open>length\<close> is a
  string, \<open>{length: '2', 0: 'a', 1: 'b'}\<close>.
\<close>

definition array_in_array :: heap where
  "array_in_array =
     [Cell Array [] [Num 1],
      Cell Array [] [Ref 0],
      Cell Plain [(''x'', Ref 1)] []]"

definition string_length :: heap where
  "string_length = [Cell Plain [(''0'', Str ''a''), (''1'', Str ''b''), (''length'', Str ''2'')] []]"

section \<open>Properties of adapter selection\<close>

text \<open>
  Claim C3, as stated, fails: a config whose \<open>name\<close> and \<open>filePath\<close> are both own properties
  is not classified as an upload when \<open>filePath\<close> is the empty string. With
  \<open>{name: 'n', filePath: ''}\<close> the first test sees a falsy \<open>filePath\<close>, the second a truthy
  \<open>name\<close>, and the plain request adapter is chosen.
\<close>

theorem getDefaultAdapter_presence_counterexample:
  "hasOwnProperty [Cell Plain [(''name'', Str ''n''), (''filePath'', Str '''')] []] (Ref 0) ''name''
   \<and> hasOwnProperty [Cell Plain [(''name'', Str ''n''), (''filePath'', Str '''')] []] (Ref 0) ''filePath''
   \<and> getDefaultAdapter [Cell Plain [(''name'', Str ''n''), (''filePath'', Str '''')] []] (Ref 0)
       = Inr (requestAdapter, ''wx.request'')"
  by (simp add: getDefaultAdapter_def hasOwnProperty_def get_def cell_at_def)

text \<open>
  Claim C3, amended: for every truthy config the classifier returns without throwing, and it
  decides by the truthiness of \<open>name\<close> and \<open>filePath\<close> and by the own-property presence of
  \<open>filePath\<close> and \<open>protocols\<close>, in this precedence: upload exactly when \<open>name\<close> and
  \<open>filePath\<close> are both truthy; else download exactly when \<open>name\<close> is falsy and \<open>filePath\<close> is
  an own property (whatever its value); else socket exactly when \<open>protocols\<close> is an own
  property; else the plain request adapter.
\<close>

theorem getDefaultAdapter_precedence:
  "truthy config \<Longrightarrow>
     (\<exists>r. getDefaultAdapter h config = Inr r)
   \<and> (getDefaultAdapter h config = Inr (uploadFileAdapter, ''wx.uploadFile'')
         \<longleftrightarrow> truthy (get h config ''name'') \<and> truthy (get h config ''filePath''))
   \<and> (getDefaultAdapter h config = Inr (downloadFileAdapter, ''wx.downloadFile'')
         \<longleftrightarrow> \<not> truthy (get h config ''name'') \<and> hasOwnProperty h config ''filePath'')
   \<and> (getDefaultAdapter h config = Inr (connectSocketAdapter, ''wx.connectSocket'')
         \<longleftrightarrow> \<not> (truthy (get h config ''name'') \<and> truthy (get h config ''filePath''))
             \<and> \<not> (\<not> truthy (get h config ''name'') \<and> hasOwnProperty h config ''filePath'')
             \<and> hasOwnProperty h config ''protocols'')
   \<and> (getDefaultAdapter h config = Inr (requestAdapter, ''wx.request'')
         \<longleftrightarrow> \<not> (truthy (get h config ''name'') \<and> truthy (get h config ''filePath''))
             \<and> \<not> (\<not> truthy (get h config ''name'') \<and> hasOwnProperty h config ''filePath'')
             \<and> \<not> hasOwnProperty h config ''protocols'')"
  by (auto simp: getDefaultAdapter_def)

text \<open>
  The theorem at the config \<open>{filePath: ''}\<close> of the README: \<open>filePath\<close> is an own property
  with a falsy value, \<open>name\<close> is missing, and the download adapter is chosen.
\<close>

theorem getDefaultAdapter_precedence_witness:
  "truthy (Ref 0)
   \<and> \<not> truthy (get [Cell Plain [(''filePath'', Str '''')] []] (Ref 0) ''name'')
   \<and> hasOwnProperty [Cell Plain [(''filePath'', Str '''')] []] (Ref 0) ''filePath''
   \<and> getDefaultAdapter [Cell Plain [(''filePath'', Str '''')] []] (Ref 0)
       = Inr (downloadFileAdapter, ''wx.downloadFile'')"
proof -
  have t: "truthy (Ref 0)" by simp
  have n: "\<not> truthy (get [Cell Plain [(''filePath'', Str '''')] []] (Ref 0) ''name'')"
    by (simp add: get_def cell_at_def)
  have f: "hasOwnProperty [Cell Plain [(''filePath'', Str '''')] []] (Ref 0) ''filePath''"
    by (simp add: hasOwnProperty_def cell_at_def)
  from getDefaultAdapter_precedence [OF t, of "[Cell Plain [(''filePath'', Str '''')] []]"] n f
  show ?thesis by simp
qed

section \<open>Properties of the URL helpers\<close>

lemma digits_small: "n < 10 \<Longrightarrow> digits n = [digit_char n]"
  by (simp add: digits.simps)

text \<open>
  Claim C7 against the code. The documentation of \<open>buildPathParam\<close> promises
  \<open>/a/b/c + {x:1, y:2, z:3} => /a/b/c?x=1&y=2&z=3\<close>, and the claim repeats it for
  \<open>buildPathParam('/a/b', {x:1, y:2})\<close>. The function hands \<open>'?' + suffix\<close> to
  \<open>combineURLs\<close>, which always joins its two parts with a slash: the result is
  \<open>/a/b/?x=1&y=2\<close>. On a url that already has a query, \<open>/a/b?x=1\<close> with \<open>{y:2}\<close>, the
  first pair gets its \<open>&\<close> but the slash and a second \<open>?\<close> are still inserted:
  \<open>/a/b?x=1/?&y=2\<close>.
\<close>

theorem buildPathParam_inserts_slash:
  "buildPathParam objstr [Cell Plain [(''x'', Num 1), (''y'', Num 2)] []] (Str ''/a/b'') (Ref 0)
     = ''/a/b/?x=1&y=2''
   \<and> buildPathParam objstr [Cell Plain [(''x'', Num 1), (''y'', Num 2)] []] (Str ''/a/b'') (Ref 0)
     \<noteq> ''/a/b?x=1&y=2''
   \<and> buildPathParam objstr [Cell Plain [(''y'', Num 2)] []] (Str ''/a/b?x=1'') (Ref 0)
     = ''/a/b?x=1/?&y=2''"
  by (simp add: buildPathParam_def isPlainObject_def isFunction_def cell_at_def lookup_def
      to_string_def show_int_def digits_small digit_char_def combineURLs_def
      strip_foot_slash_def strip_head_slash_def)

section \<open>Properties of the interceptor chain\<close>

lemma forEach_unshift:
  "forEach hs unshiftRequestInterceptors acc = concat (map handler_pair (rev (live hs))) @ acc"
proof (induction hs arbitrary: acc)
  case Nil
  show ?case by simp
next
  case (Cons x hs)
  show ?case
  proof (cases x)
    case None
    then show ?thesis using Cons.IH [of acc] by simp
  next
    case (Some a)
    have "forEach (x # hs) unshiftRequestInterceptors acc
            = forEach hs unshiftRequestInterceptors (unshiftRequestInterceptors a acc)"
      using Some by simp
    also have "\<dots> = concat (map handler_pair (rev (live hs))) @ unshiftRequestInterceptors a acc"
      by (rule Cons.IH)
    finally show ?thesis
      using Some unshiftRequestInterceptors_def [of a acc] handler_pair_def [of a] by simp
  qed
qed

lemma forEach_push:
  "forEach hs pushResponseInterceptors acc = acc @ concat (map handler_pair (live hs))"
proof (induction hs arbitrary: acc)
  case Nil
  show ?case by simp
next
  case (Cons x hs)
  show ?case
  proof (cases x)
    case None
    then show ?thesis using Cons.IH [of acc] by simp
  next
    case (Some a)
    have "forEach (x # hs) pushResponseInterceptors acc
            = forEach hs pushResponseInterceptors (pushResponseInterceptors a acc)"
      using Some by simp
    also have "\<dots> = pushResponseInterceptors a acc @ concat (map handler_pair (live hs))"
      by (rule Cons.IH)
    finally show ?thesis
      using Some pushResponseInterceptors_def [of a acc] handler_pair_def [of a] by simp
  qed
qed

lemma request_loop_append:
  "clean_run pre c0 s0 = Some (c, s) \<Longrightarrow> request_loop (pre @ rest) c0 s0 = request_loop rest c s"
  by (induction pre c0 s0 rule: clean_run.induct) (auto split: prod.splits ret.splits)

lemma live_use: "live (snd (use hs f r)) = live hs @ [\<lparr>fulfilled = f, rejected = r\<rparr>]"
  by (induction hs rule: live.induct) (simp_all add: use_def)

text \<open>
  The request interceptors run last registered first, the response interceptors first
  registered first, in both copies of the library.
\<close>

lemma request_with_order:
  "request_with loop dispatchRequest request_handlers response_handlers config s =
     (case request_loop (concat (map handler_pair (rev (live request_handlers)))) config s of
        (Inl err, s') \<Rightarrow> (Thrown err, s')
      | (Inr newConfig, s') \<Rightarrow>
          after_dispatch loop (concat (map handler_pair (live response_handlers)))
            (dispatchRequest newConfig s'))"
  by (simp add: request_with_def forEach_unshift forEach_push)

text \<open>
  Claim C1, as stated, fails. One request interceptor is registered; its fulfilled handler
  throws \<open>'boom'\<close>. The paired rejected handler is called with \<open>'boom'\<close>, and then the
  request is dispatched all the same, with the config as it was before the handler ran: the
  call settles as the dispatch does, here fulfilled, and not as a promise rejected with
  \<open>'boom'\<close>.
\<close>

theorem request_interceptor_throw_counterexample:
  "request dispatch_echo handlers_T InterceptorManager (Str ''cfg'') []
     = (Promise (Fulfilled (Str ''cfg'')), [''boom'', ''T.rejected:boom'', ''dispatch''])
   \<and> fst (request dispatch_echo handlers_T InterceptorManager (Str ''cfg'') [])
     \<noteq> Promise (Rejected (Str ''boom''))"
  by (simp add: request_def request_with_def handlers_T_def use_def InterceptorManager_def
      unshiftRequestInterceptors_def pushResponseInterceptors_def fail_with_def mark_def
      dispatch_echo_def after_dispatch_def)

text \<open>
  Claim C1, amended: let a registered request interceptor \<open>i\<close> be reached without a throw
  by the interceptors registered after it (they run first), and let its fulfilled handler
  throw \<open>e\<close>. If its paired rejected handler, called with \<open>e\<close>, returns, then no request
  interceptor registered before \<open>i\<close> runs, the request is dispatched with the config that
  \<open>i\<close> received, and the call gives what the dispatch and the response interceptors give:
  the error \<open>e\<close> has gone to the rejected handler only.
\<close>

theorem request_interceptor_throw:
  assumes "live request_handlers = earlier @ i # later"
    and "clean_run (concat (map handler_pair (rev later))) config s0 = Some (c, s)"
    and "call (fulfilled i) c s = (Throws e, s1)"
    and "call (rejected i) e s1 = (Returns x, s2)"
  shows "request dispatchRequest request_handlers response_handlers config s0
           = after_dispatch response_loop (concat (map handler_pair (live response_handlers)))
               (dispatchRequest c s2)"
proof -
  have "request_loop (concat (map handler_pair (rev (live request_handlers)))) config s0
          = request_loop (fulfilled i # rejected i # concat (map handler_pair (rev earlier))) c s"
    using assms(1) request_loop_append [OF assms(2)] by (simp add: handler_pair_def)
  also have "\<dots> = (Inr c, s2)"
    using assms(3,4) by simp
  finally show ?thesis
    by (simp add: request_def request_with_order)
qed

theorem request_interceptor_throw_witness:
  "live handlers_A_T_B
     = [\<lparr>fulfilled = Some (mark ''A''), rejected = None\<rparr>]
       @ \<lparr>fulfilled = Some (fail_with ''boom''), rejected = Some (mark ''T.rejected'')\<rparr>
       # [\<lparr>fulfilled = Some (mark ''B''), rejected = None\<rparr>]
   \<and> clean_run (concat (map handler_pair (rev [\<lparr>fulfilled = Some (mark ''B''), rejected = None\<rparr>])))
        (Str ''cfg'') [] = Some (Str ''B(cfg)'', [''B:cfg''])
   \<and> call (Some (fail_with ''boom'')) (Str ''B(cfg)'') [''B:cfg'']
        = (Throws (Str ''boom''), [''B:cfg'', ''boom''])
   \<and> call (Some (mark ''T.rejected'')) (Str ''boom'') [''B:cfg'', ''boom'']
        = (Returns (Str ''T.rejected(boom)''), [''B:cfg'', ''boom'', ''T.rejected:boom''])
   \<and> request dispatch_echo handlers_A_T_B InterceptorManager (Str ''cfg'') []
        = (Promise (Fulfilled (Str ''B(cfg)'')),
           [''B:cfg'', ''boom'', ''T.rejected:boom'', ''dispatch''])"
proof -
  let ?A = "\<lparr>fulfilled = Some (mark ''A''), rejected = None\<rparr>"
  let ?T = "\<lparr>fulfilled = Some (fail_with ''boom''), rejected = Some (mark ''T.rejected'')\<rparr>"
  let ?B = "\<lparr>fulfilled = Some (mark ''B''), rejected = None\<rparr>"
  have l: "live handlers_A_T_B = [?A] @ ?T # [?B]"
    by (simp add: handlers_A_T_B_def live_use InterceptorManager_def)
  have r: "clean_run (concat (map handler_pair (rev [?B]))) (Str ''cfg'') []
             = Some (Str ''B(cfg)'', [''B:cfg''])"
    by (simp add: handler_pair_def mark_def)
  have t: "call (fulfilled ?T) (Str ''B(cfg)'') [''B:cfg'']
             = (Throws (Str ''boom''), [''B:cfg'', ''boom''])"
    by (simp add: fail_with_def)
  have j: "call (rejected ?T) (Str ''boom'') [''B:cfg'', ''boom'']
             = (Returns (Str ''T.rejected(boom)''), [''B:cfg'', ''boom'', ''T.rejected:boom''])"
    by (simp add: mark_def)
  have "request dispatch_echo handlers_A_T_B InterceptorManager (Str ''cfg'') []
          = after_dispatch response_loop (concat (map handler_pair (live InterceptorManager)))
              (dispatch_echo (Str ''B(cfg)'') [''B:cfg'', ''boom'', ''T.rejected:boom''])"
    by (rule request_interceptor_throw [OF l r t j])
  then have "request dispatch_echo handlers_A_T_B InterceptorManager (Str ''cfg'') []
          = (Promise (Fulfilled (Str ''B(cfg)'')),
             [''B:cfg'', ''boom'', ''T.rejected:boom'', ''dispatch''])"
    by (simp add: InterceptorManager_def dispatch_echo_def after_dispatch_def)
  with l r t j show ?thesis by simp
qed

text \<open>
  When the rejected handler is missing or throws in its turn, its exception leaves
  \<open>request\<close> synchronously.
\<close>

lemma request_interceptor_rethrow:
  assumes "live request_handlers = earlier @ i # later"
    and "clean_run (concat (map handler_pair (rev later))) config s0 = Some (c, s)"
    and "call (fulfilled i) c s = (Throws e, s1)"
    and "call (rejected i) e s1 = (Throws e', s2)"
  shows "request dispatchRequest request_handlers response_handlers config s0 = (Thrown e', s2)"
proof -
  have "request_loop (concat (map handler_pair (rev (live request_handlers)))) config s0
          = request_loop (fulfilled i # rejected i # concat (map handler_pair (rev earlier))) c s"
    using assms(1) request_loop_append [OF assms(2)] by (simp add: handler_pair_def)
  also have "\<dots> = (Inl e', s2)"
    using assms(3,4) by simp
  finally show ?thesis
    by (simp add: request_def request_with_order)
qed

text \<open>
  In the later copy of the library the response interceptors \<open>A\<close> then \<open>B\<close> are
  chained: \<open>B\<close> receives what \<open>A\<close> returned, and the call resolves with what \<open>B\<close>
  returned. The request interceptors run \<open>B\<close> before \<open>A\<close>.
\<close>

lemma request_response_chained:
  "request dispatch_echo InterceptorManager handlers_A_B (Str ''cfg'') []
     = (Promise (Fulfilled (Str ''B(A(cfg))'')), [''dispatch'', ''A:cfg'', ''B:A(cfg)''])"
  by (simp add: request_def request_with_def handlers_A_B_def use_def InterceptorManager_def
      unshiftRequestInterceptors_def pushResponseInterceptors_def mark_def
      dispatch_echo_def after_dispatch_def then_promise_def)

lemma request_request_reversed:
  "request dispatch_echo handlers_A_B InterceptorManager (Str ''cfg'') []
     = (Promise (Fulfilled (Str ''A(B(cfg))'')), [''B:cfg'', ''A:B(cfg)'', ''dispatch''])"
  by (simp add: request_def request_with_def handlers_A_B_def use_def InterceptorManager_def
      unshiftRequestInterceptors_def pushResponseInterceptors_def mark_def
      dispatch_echo_def after_dispatch_def)

text \<open>
  Claim C2 against the code. The claim holds of the later copy of \<open>request\<close>, as the
  lemmas above say. In \<open>weapp-axios.js\<close> at the root the result of \<open>promise.then\<close> is
  dropped. With the same registrations \<open>A\<close> then \<open>B\<close> on the response side, \<open>A\<close> runs
  before \<open>B\<close>, but \<open>B\<close> receives the response of the dispatch and not what \<open>A\<close>
  returned, and the call resolves with the response of the dispatch and not with what the
  interceptors returned: the interceptors are not composed onto the pipeline promise.
\<close>

theorem request_root_response_not_chained:
  "request_root dispatch_echo InterceptorManager handlers_A_B (Str ''cfg'') []
     = (Promise (Fulfilled (Str ''cfg'')), [''dispatch'', ''A:cfg'', ''B:cfg''])
   \<and> request_root dispatch_echo InterceptorManager handlers_A_B (Str ''cfg'') []
     \<noteq> request dispatch_echo InterceptorManager handlers_A_B (Str ''cfg'') []"
  by (simp add: request_root_def request_def request_with_def handlers_A_B_def use_def
      InterceptorManager_def unshiftRequestInterceptors_def pushResponseInterceptors_def
      mark_def dispatch_echo_def after_dispatch_def then_promise_def)

section \<open>Properties of the dispatcher's callbacks\<close>

text \<open>
  Claim C6: let the config have a \<open>validateStatus\<close> function, and let the diagnostic
  printer be off or present. When the adapter resolves with a response whose status passes
  \<open>validateStatus\<close>, with \<open>forcedJSONParsing\<close> set and a string body, then the call resolves
  with the response whose body is the parsed value if \<open>JSON.parse\<close> accepts the string, and
  it is rejected with the library's data-parsing error if \<open>JSON.parse\<close> refuses it. When
  the status does not pass, the call resolves with the response as it came, its body not
  parsed. When the adapter rejects, the payload of the transport is passed on unchanged: the
  data-parsing error is an \<open>Error\<close> made by the library on the resolve path only.
\<close>

theorem dispatch_settle_json:
  assumes "validateStatus config = Some validate"
    and "\<not> (truthy (openLocalPrinter config) \<and> \<not> printManager config)"
  shows "(validate (statusCode r) \<and> truthy (forcedJSONParsing config) \<and> data r = Str s
            \<and> JSON_parse s h = Some (v, h')
          \<longrightarrow> fst (dispatch_settle JSON_parse config (Inr r) (h, log)) = Inr (r\<lparr>data := v\<rparr>)
              \<and> fst (snd (dispatch_settle JSON_parse config (Inr r) (h, log))) = h')
       \<and> (validate (statusCode r) \<and> truthy (forcedJSONParsing config) \<and> data r = Str s
            \<and> JSON_parse s h = None
          \<longrightarrow> dispatch_settle JSON_parse config (Inr r) (h, log)
                = (Inl (Error DataParseError), (h, log)))
       \<and> (\<not> validate (statusCode r)
          \<longrightarrow> fst (dispatch_settle JSON_parse config (Inr r) (h, log)) = Inr r
              \<and> fst (snd (dispatch_settle JSON_parse config (Inr r) (h, log))) = h)
       \<and> dispatch_settle JSON_parse config (Inl err) (h, log) = (Inl err, (h, log))"
  using assms
  by (auto simp: dispatch_settle_def onAdapterResolve_def onAdapterReject_def forced_parse_def
      isString_def Let_def)

text \<open>
  The theorem at the examples of the specification: status 200 with the body \<open>{"a":1}\<close>
  gives the object \<open>{a: 1}\<close>; status 200 with a malformed body gives the data-parsing error;
  status 404 leaves the body \<open>{"a":1}\<close> a string.
\<close>

theorem dispatch_settle_json_witness:
  "validateStatus release_config = Some validateStatus_default
   \<and> \<not> (truthy (openLocalPrinter release_config) \<and> \<not> printManager release_config)
   \<and> validateStatus_default 200 \<and> truthy (forcedJSONParsing release_config)
   \<and> parse_a1 json_a1 [] = Some (Ref 0, [Cell Plain [(''a'', Num 1)] []])
   \<and> fst (dispatch_settle parse_a1 release_config
             (Inr \<lparr>statusCode = 200, data = Str json_a1\<rparr>) ([], []))
       = Inr \<lparr>statusCode = 200, data = Ref 0\<rparr>
   \<and> fst (snd (dispatch_settle parse_a1 release_config
             (Inr \<lparr>statusCode = 200, data = Str json_a1\<rparr>) ([], [])))
       = [Cell Plain [(''a'', Num 1)] []]
   \<and> parse_a1 ''{a'' [] = None
   \<and> dispatch_settle parse_a1 release_config (Inr \<lparr>statusCode = 200, data = Str ''{a''\<rparr>) ([], [])
       = (Inl (Error DataParseError), ([], []))
   \<and> \<not> validateStatus_default 404
   \<and> fst (dispatch_settle parse_a1 release_config
             (Inr \<lparr>statusCode = 404, data = Str json_a1\<rparr>) ([], []))
       = Inr \<lparr>statusCode = 404, data = Str json_a1\<rparr>"
proof -
  have c: "validateStatus release_config = Some validateStatus_default"
    by (simp add: release_config_def)
  have p: "\<not> (truthy (openLocalPrinter release_config) \<and> \<not> printManager release_config)"
    by (simp add: release_config_def)
  have f: "truthy (forcedJSONParsing release_config)"
    by (simp add: release_config_def)
  have ok: "validateStatus_default 200" and ko: "\<not> validateStatus_default 404"
    by (simp_all add: validateStatus_default_def)
  have p1: "parse_a1 json_a1 [] = Some (Ref 0, [Cell Plain [(''a'', Num 1)] []])"
    by (simp add: parse_a1_def)
  have p2: "parse_a1 ''{a'' [] = None"
    by (simp add: parse_a1_def json_a1_def)
  note t1 = dispatch_settle_json [OF c p, of "\<lparr>statusCode = 200, data = Str json_a1\<rparr>" json_a1
      parse_a1 "[]" "Ref 0" "[Cell Plain [(''a'', Num 1)] []]" "[]"]
  note t2 = dispatch_settle_json [OF c p, of "\<lparr>statusCode = 200, data = Str ''{a''\<rparr>" "''{a''"
      parse_a1 "[]" "Ref 0" "[]" "[]"]
  note t3 = dispatch_settle_json [OF c p, of "\<lparr>statusCode = 404, data = Str json_a1\<rparr>" json_a1
      parse_a1 "[]" "Ref 0" "[]" "[]"]
  from t1 ok f p1
  have r1: "fst (dispatch_settle parse_a1 release_config
                  (Inr \<lparr>statusCode = 200, data = Str json_a1\<rparr>) ([], []))
              = Inr \<lparr>statusCode = 200, data = Ref 0\<rparr>
            \<and> fst (snd (dispatch_settle parse_a1 release_config
                  (Inr \<lparr>statusCode = 200, data = Str json_a1\<rparr>) ([], [])))
              = [Cell Plain [(''a'', Num 1)] []]"
    by simp
  from t2 ok f p2
  have r2: "dispatch_settle parse_a1 release_config
              (Inr \<lparr>statusCode = 200, data = Str ''{a''\<rparr>) ([], [])
              = (Inl (Error DataParseError), ([], []))"
    by simp
  from t3 ko
  have r3: "fst (dispatch_settle parse_a1 release_config
                  (Inr \<lparr>statusCode = 404, data = Str json_a1\<rparr>) ([], []))
              = Inr \<lparr>statusCode = 404, data = Str json_a1\<rparr>"
    by simp
  from c p f ok ko p1 p2 r1 r2 r3 show ?thesis by simp
qed

section \<open>Properties of the task bridge\<close>

text \<open>
  What the bridge does for one entry of the task spec: a function under a callback key is
  handed to the handle's method of that name; a value that is not a function is skipped; and
  the bridging function, when the host calls it, calls the user's handler with the payload
  and the handle.
\<close>

lemma setRequestTask_callback:
  assumes "isFunction h value" and "truthy (get h configTask key)"
    and "key \<in> set legalCallbackTasks" and "key \<in> set (methods t)"
  shows "setRequestTask h ufun requestTask configTask value key (t, log)
           = Some (Done (t\<lparr>registered := registered t @ [key]\<rparr>, log))"
  using assms by (simp add: setRequestTask_def)

lemma setRequestTask_not_function:
  "\<not> isFunction h value \<Longrightarrow>
     setRequestTask h ufun requestTask configTask value key st = Some (Done st)"
  by (simp add: setRequestTask_def)

lemma requestTaskCallback_calls_user:
  assumes "isFunction h (get h configTask key)"
    and "ufun (get h configTask key) [res, requestTask] = None"
  shows "requestTaskCallback h ufun requestTask configTask False pm key res (t, log)
           = Done (t, log @ [UserCall (get h configTask key) [res, requestTask]])"
  using assms by (simp add: requestTaskCallback_def user_call_def)

text \<open>
  Every function under a key that is not a callback key is called at once with the handle,
  whether the key is a control key or not.
\<close>

lemma setRequestTask_other_key:
  assumes "isFunction h (get h configTask key)" and "value = get h configTask key"
    and "key \<notin> set legalCallbackTasks" and "ufun value [requestTask] = None"
  shows "setRequestTask h ufun requestTask configTask value key (t, log)
           = Some (Done (t, log @ [UserCall value [requestTask]]))"
proof -
  have "isFunction h value"
    using assms(1,2) by simp
  then have "truthy value"
    by (cases "value") (simp_all add: isFunction_def)
  then show ?thesis
    using assms by (simp add: setRequestTask_def user_call_def)
qed

text \<open>
  Claim C8 against the code. The source declares the control keys,
  \<open>legalTasks = ['abort', 'close', 'send']\<close>, and never consults them. A task spec
  \<open>{foo: f}\<close> with a function \<open>f\<close> under the unknown key \<open>foo\<close> is not ignored: \<open>f\<close> is
  called at once with the task handle.
\<close>

theorem adapterTaskSettle_unknown_key_called:
  "''foo'' \<notin> set legalTasks \<and> ''foo'' \<notin> set legalCallbackTasks
   \<and> adapterTaskSettle conv
        [Cell (Function ''f'') [] [], Cell Plain [(''foo'', Ref 0)] [], Cell Other [] []]
        quiet (Ref 2) (Ref 1) (\<lparr>methods = [], registered = []\<rparr>, [])
      = Some (Done (\<lparr>methods = [], registered = []\<rparr>, [UserCall (Ref 0) [Ref 2]]))"
  by (simp add: adapterTaskSettle_def each_def forOwn_def isArrayLike_def isFunction_def
      isPlainObject_def hasOwnProperty_def cell_at_def Object_keys_def key_read_def lookup_def
      setRequestTask_def get_def user_call_def quiet_def legalTasks_def legalCallbackTasks_def)

section \<open>Properties of the deep merge: what it leaves alone\<close>

text \<open>
  A property of the loop state that every step keeps is kept by the loops of \<open>each\<close> and
  of \<open>merge\<close>.
\<close>

lemma each_keys_invariant:
  assumes step: "\<And>v k st r. P st \<Longrightarrow> iteratee v k st = Some r \<Longrightarrow> P (state_of r)"
    and "P st" and "each_keys rd name iteratee ks st = Some r"
  shows "P (state_of r)"
  using assms(2,3)
proof (induction ks arbitrary: st)
  case Nil
  then show ?case by auto
next
  case (Cons k ks)
  show ?case
  proof (cases "iteratee (rd st k) (name k) st")
    case None
    with Cons.prems show ?thesis by simp
  next
    case (Some r1)
    have p1: "P (state_of r1)" using step [OF Cons.prems(1) Some] .
    show ?thesis
    proof (cases r1)
      case (Done st1)
      with Some Cons.prems(2) have "each_keys rd name iteratee ks st1 = Some r" by simp
      with p1 Done show ?thesis using Cons.IH by simp
    next
      case (Raised e st1)
      with Some Cons.prems(2) p1 show ?thesis by auto
    qed
  qed
qed

lemma each_invariant:
  assumes step: "\<And>v k st r. P st \<Longrightarrow> iteratee v k st = Some r \<Longrightarrow> P (state_of r)"
    and "P st" and "each conv heap_of collection iteratee st = Some r"
  shows "P (state_of r)"
proof (cases "collection = Null")
  case True
  with assms(2,3) show ?thesis by (auto simp: each_def)
next
  case False
  show ?thesis
  proof (cases "isArrayLike (heap_of st) collection")
    case (Inl e)
    with False assms(2,3) show ?thesis by (auto simp: each_def)
  next
    case (Inr b)
    show ?thesis
    proof (cases b)
      case True
      with Inr False assms(3) obtain n where
        "each_keys (\<lambda>st' i. elem_read (heap_of st') collection i) digits iteratee [0 ..< n] st = Some r"
        by (auto simp: each_def split: option.splits)
      then show ?thesis using each_keys_invariant [of P iteratee st] step assms(2) by blast
    next
      case b: False
      with Inr False assms(3) have
        "each_keys (\<lambda>st' k. key_read (heap_of st') collection k) (\<lambda>k. k) iteratee
           (Object_keys (heap_of st) collection) st = Some r"
        by (simp add: each_def forOwn_def)
      then show ?thesis using each_keys_invariant [of P iteratee st] step assms(2) by blast
    qed
  qed
qed

lemma merge_sources_invariant:
  assumes step: "\<And>v k st r. P st \<Longrightarrow> assignValue mrg v k st = Some r \<Longrightarrow> P (state_of r)"
    and "P st" and "merge_sources conv mrg args st = Some r"
  shows "P (state_of r)"
  using assms(2,3)
proof (induction args arbitrary: st)
  case Nil
  then show ?case by auto
next
  case (Cons a as)
  show ?case
  proof (cases "each conv fst a (assignValue mrg) st")
    case None
    with Cons.prems show ?thesis by simp
  next
    case (Some r1)
    have p1: "P (state_of r1)"
      using each_invariant [of P "assignValue mrg" st conv fst a r1] step Cons.prems(1) Some by blast
    show ?thesis
    proof (cases r1)
      case (Done st1)
      with Some Cons.prems(2) have "merge_sources conv mrg as st1 = Some r" by simp
      with p1 Done show ?thesis using Cons.IH by simp
    next
      case (Raised e st1)
      with Some Cons.prems(2) p1 show ?thesis by auto
    qed
  qed
qed

lemma assignValue_prefix:
  assumes "appends_only mrg" and "prefix h0 (fst st)" and "assignValue mrg v k st = Some r"
  shows "prefix h0 (fst (state_of r))"
proof -
  have m: "\<And>h args r h'. mrg h args = Some (r, h') \<Longrightarrow> prefix h h'"
    using assms(1) by (auto simp: appends_only_def)
  have m1: "\<And>c args r h'. mrg (fst st @ [c]) args = Some (r, h') \<Longrightarrow> prefix (fst st) h'"
    using m append_prefixD by blast
  have "prefix (fst st) (fst (state_of r))"
    using assms(3)
    by (auto simp: assignValue_def Let_def alloc_def
        split: if_splits option.splits sum.splits prod.splits val.splits
        dest: m m1)
  with assms(2) show ?thesis by (rule prefix_order.trans)
qed

lemma merge_body_prefix:
  assumes "appends_only mrg"
  shows "appends_only (merge_body conv mrg)"
  unfolding appends_only_def
proof (intro allI impI)
  fix h args r h'
  assume m: "merge_body conv mrg h args = Some (r, h')"
  then obtain r1 where s: "merge_sources conv mrg args (h, []) = Some r1"
    by (auto simp: merge_body_def split: option.splits)
  have "prefix h (fst (state_of r1))"
    using merge_sources_invariant [of "\<lambda>st. prefix h (fst st)" mrg "(h, [])" conv args r1]
      assignValue_prefix [OF assms] s by simp
  with m s show "prefix h h'"
    by (cases r1) (auto simp: merge_body_def alloc_def intro: prefix_order.trans)
qed

lemma merge_appends_only: "appends_only (merge conv n)"
proof (induction n)
  case 0
  show ?case by (simp add: appends_only_def)
next
  case (Suc n)
  then show ?case by (simp add: merge_body_prefix)
qed

lemma merge_prefix: "merge conv n h args = Some (r, h') \<Longrightarrow> prefix h h'"
  using merge_appends_only [of conv n] by (simp add: appends_only_def)

section \<open>Properties of the deep merge: sources that are not mappings\<close>

lemma each_inert: "inert v \<Longrightarrow> each conv heap_of v iteratee st = Some (Done st)"
  by (cases v)
     (simp_all add: inert_def each_def isArrayLike_def isFunction_def hasOwnProperty_def
        forOwn_def Object_keys_def)

lemma merge_sources_inert:
  "merge_sources conv mrg (filter (\<lambda>v. \<not> inert v) args) st = merge_sources conv mrg args st"
  by (induction args arbitrary: st) (auto simp: each_inert split: option.splits res.splits)

text \<open>
  \<open>null\<close>, numbers and booleans among the sources change nothing: the call gives what it
  gives without them.
\<close>

lemma merge_skips_inert: "merge conv n h (filter (\<lambda>v. \<not> inert v) args) = merge conv n h args"
  by (cases n) (simp_all add: merge_body_def merge_sources_inert)

text \<open>
  Claim C9 against the code. \<open>utils.each\<close> tests \<open>collection === null\<close> and
  \<open>utils.isArrayLike\<close> tests \<open>value !== null\<close>, both strictly (the copy of the library at the
  root has \<open>==\<close> and \<open>!=\<close>), so an \<open>undefined\<close> source gets as far as
  \<open>hasOwnProperty.call(undefined, 'length')\<close>: \<open>merge({a: 1}, undefined)\<close> throws a
  \<open>TypeError\<close>, where \<open>merge({a: 1}, null)\<close> returns what \<open>merge({a: 1})\<close> returns.
\<close>

theorem merge_undefined_source_throws:
  "merge conv 1 [Cell Plain [(''a'', Num 1)] []] [Ref 0, Undefined]
     = Some (Inl (Error TypeError), [Cell Plain [(''a'', Num 1)] []])
   \<and> merge conv 1 [Cell Plain [(''a'', Num 1)] []] [Ref 0, Null]
     = Some (Inr (Ref 1), [Cell Plain [(''a'', Num 1)] [], Cell Plain [(''a'', Num 1)] []])
   \<and> merge conv 1 [Cell Plain [(''a'', Num 1)] []] [Ref 0]
     = Some (Inr (Ref 1), [Cell Plain [(''a'', Num 1)] [], Cell Plain [(''a'', Num 1)] []])"
  by (simp add: merge_body_def each_def forOwn_def isArrayLike_def isFunction_def
      hasOwnProperty_def cell_at_def Object_keys_def key_read_def lookup_def assignValue_def
      isPlainObject_def isArray_def alloc_def)


section \<open>Properties of the deep merge: it returns\<close>

text \<open>
  The notions of fit are kept when the store grows.
\<close>

lemma fits_Ref_iff:
  "fits conv (Suc n) h (Ref a) \<longleftrightarrow>
     a < length h \<and> cls_of (h ! a) = Plain
     \<and> (if ''length'' \<in> set (map fst (props (h ! a)))
        then (\<exists>m. index_bound conv (lookup (props (h ! a)) ''length'') = Some m
                \<and> (\<forall>i < m. okval conv n h (lookup (props (h ! a)) (digits i))))
        else (\<forall>x \<in> set (map snd (props (h ! a))). okval conv n h x))"
proof (cases "index_bound conv (lookup (props (h ! a)) ''length'')")
  case None
  then show ?thesis unfolding okval_def by (simp only: fits.simps val.case option.case) simp
next
  case (Some m)
  have e: "(\<forall>i \<in> set [0 ..< m]. P i) \<longleftrightarrow> (\<forall>i < m. P i)" for P by auto
  show ?thesis
    unfolding okval_def
    by (simp only: fits.simps val.case option.case Some e) (simp split: val.splits)
qed

lemma fits_positive: "fits conv n h v \<Longrightarrow> \<exists>m. n = Suc m"
  by (cases n) auto

lemma fits_Ref: "fits conv n h v \<Longrightarrow> \<exists>a. v = Ref a"
  by (cases n; cases v) simp_all

lemma fits_valid:
  assumes "fits conv n h (Ref a)"
  shows "a < length h \<and> cls_of (h ! a) = Plain"
proof -
  from fits_positive [OF assms] obtain m where "n = Suc m" ..
  with assms have "fits conv (Suc m) h (Ref a)" by simp
  then show ?thesis unfolding fits_Ref_iff by blast
qed

text \<open>
  Fitting goes over from one store to another that has the same objects at the same
  addresses, as far as the walk sees them.
\<close>

lemma okval_transfer:
  assumes "\<And>v. fits conv n h v \<Longrightarrow> fits conv n h' v"
    and "\<And>b. b < length h \<Longrightarrow> b < length h' \<and> cls_of (h' ! b) = cls_of (h ! b)"
    and "okval conv n h x"
  shows "okval conv n h' x"
proof (cases x)
  case (Ref b)
  with assms(3) have b: "b < length h" and f: "cls_of (h ! b) = Plain \<longrightarrow> fits conv n h x"
    unfolding okval_def by simp_all
  from assms(2) [OF b] f assms(1) Ref show ?thesis
    unfolding okval_def by simp
qed (simp_all add: okval_def)

lemma fits_append: "fits conv n h v \<Longrightarrow> fits conv n (h @ ext) v"
proof (induction n arbitrary: v)
  case 0
  then show ?case by simp
next
  case (Suc n)
  from fits_Ref [OF Suc.prems] obtain a where v: "v = Ref a" ..
  have o: "okval conv n (h @ ext) x" if ok: "okval conv n h x" for x
  proof (rule okval_transfer [OF _ _ ok])
    show "\<And>v. fits conv n h v \<Longrightarrow> fits conv n (h @ ext) v" by (rule Suc.IH)
    show "\<And>b. b < length h \<Longrightarrow> b < length (h @ ext) \<and> cls_of ((h @ ext) ! b) = cls_of (h ! b)"
      by (simp add: nth_append)
  qed
  from Suc.prems v have a: "a < length h" using fits_valid by blast
  then have c: "(h @ ext) ! a = h ! a" by (simp add: nth_append)
  from Suc.prems v show ?case
    unfolding v fits_Ref_iff c using a o by (auto split: if_splits)
qed

lemma okval_append:
  assumes "okval conv n h x"
  shows "okval conv n (h @ ext) x"
proof (rule okval_transfer [OF _ _ assms])
  show "\<And>v. fits conv n h v \<Longrightarrow> fits conv n (h @ ext) v" by (rule fits_append)
  show "\<And>b. b < length h \<Longrightarrow> b < length (h @ ext) \<and> cls_of ((h @ ext) ! b) = cls_of (h ! b)"
    by (simp add: nth_append)
qed

lemma fresh_append: "okval conv n h x \<Longrightarrow> fresh h0 h x \<Longrightarrow> fresh h0 (h @ ext) x"
  by (cases x) (auto simp: okval_def fresh_def isArray_def isPlainObject_def cell_at_def nth_append
      split: if_splits)

text \<open>An index, written in decimal, is never the key \<open>length\<close>.\<close>

lemma digit_char_in: "digit_char d \<in> set ''0123456789''"
proof -
  have "d mod 10 < length ''0123456789''" by simp
  then show ?thesis unfolding digit_char_def by (rule nth_mem)
qed

lemma digits_chars: "set (digits n) \<subseteq> set ''0123456789''"
proof (induction n rule: digits.induct)
  case (1 n)
  show ?case
  proof (cases "n < 10")
    case True
    then show ?thesis using digit_char_in [of n] by (simp add: digits.simps [of n])
  next
    case False
    then show ?thesis
      using 1 digit_char_in [of "n mod 10"] by (simp add: digits.simps [of n])
  qed
qed

lemma digits_not_length: "digits i \<noteq> ''length''"
proof
  assume "digits i = ''length''"
  then have "CHR ''l'' \<in> set (digits i)" by simp
  with digits_chars [of i] show False by auto
qed

text \<open>Reading and writing a property list.\<close>

lemma lookup_cases: "lookup ps k = Undefined \<or> lookup ps k \<in> set (map snd ps)"
  by (auto simp: lookup_def split: option.splits dest: map_of_SomeD intro: rev_image_eqI)

lemma put_values: "set (map snd (put R k v)) \<subseteq> insert v (set (map snd R))"
  by (induction R) auto

lemma put_keys: "set (map fst (put R k v)) = insert k (set (map fst R))"
  by (induction R) auto

lemma plain_okval_fits: "isPlainObject h v \<Longrightarrow> okval conv n h v \<Longrightarrow> fits conv n h v"
  by (cases v) (auto simp: isPlainObject_def okval_def cell_at_def split: if_splits option.splits)

lemma plain_undefined [simp]: "\<not> isPlainObject h Undefined"
  by (simp add: isPlainObject_def)

text \<open>
  One \<open>assignValue\<close> on a value that fits keeps the invariant and ends normally, if the
  recursive call is total on what fits.
\<close>

lemma merge_inv_put:
  assumes "merge_inv conv n h0 (h, R)" and "k \<noteq> ''length''"
    and "okval conv n (h @ ext) v" and "fresh h0 (h @ ext) v"
  shows "merge_inv conv n h0 (h @ ext, put R k v)"
proof -
  have "\<And>x. x \<in> set (map snd (put R k v)) \<Longrightarrow> okval conv n (h @ ext) x \<and> fresh h0 (h @ ext) x"
  proof -
    fix x assume "x \<in> set (map snd (put R k v))"
    then have "x = v \<or> x \<in> set (map snd R)" using put_values [of R k v] by auto
    then show "okval conv n (h @ ext) x \<and> fresh h0 (h @ ext) x"
      using assms by (auto simp: merge_inv_def okval_append fresh_append)
  qed
  moreover have "prefix h0 (h @ ext)"
    using assms(1) by (auto simp: merge_inv_def prefix_def)
  moreover have "''length'' \<notin> set (map fst (put R k v))"
    using assms(1,2) put_keys [of R k v] by (auto simp: merge_inv_def)
  ultimately show ?thesis by (simp add: merge_inv_def)
qed

lemma fits_empty: "fits conv (Suc m) (h @ [Cell Plain [] []]) (Ref (length h))"
  by (simp add: fits_Ref_iff)


lemma assignValue_total:
  assumes t: "total_on conv n mrg" and inv: "merge_inv conv n h0 st" and v: "okval conv n (fst st) v"
    and k: "k \<noteq> ''length''"
  shows "\<exists>st'. assignValue mrg v k st = Some (Done st') \<and> merge_inv conv n h0 st'"
proof -
  obtain h R where st: "st = (h, R)" by (cases st)
  have inv': "merge_inv conv n h0 (h, R)" using inv st by simp
  have pre: "length h0 \<le> length h"
    using inv' by (auto simp: merge_inv_def prefix_def)
  let ?cur = "lookup R k"
  show ?thesis
  proof (cases "isPlainObject h v")
    case True
    then have fv: "fits conv n h v" using v st plain_okval_fits by simp
    show ?thesis
    proof (cases "isPlainObject h ?cur")
      case cur: True
      then have "?cur \<in> set (map snd R)" using lookup_cases [of R k] by auto
      then have "okval conv n h ?cur" using inv' by (auto simp: merge_inv_def)
      then have "fits conv n h ?cur" using cur plain_okval_fits by simp
      with fv t obtain a ext where
        m: "mrg h [?cur, v] = Some (Inr (Ref a), h @ ext)" and a: "length h \<le> a"
        and fa: "fits conv n (h @ ext) (Ref a)"
        unfolding total_on_def by (metis list.distinct(1) list.set_intros(1) set_ConsD empty_iff empty_set)
      have "okval conv n (h @ ext) (Ref a)"
        using fa fits_valid [OF fa] by (simp add: okval_def)
      moreover have "fresh h0 (h @ ext) (Ref a)"
        using a pre by (simp add: fresh_def)
      ultimately have "merge_inv conv n h0 (h @ ext, put R k (Ref a))"
        using merge_inv_put [OF inv' k] by simp
      then show ?thesis
        using True cur m st by (simp add: assignValue_def)
    next
      case cur: False
      let ?h1 = "h @ [Cell Plain [] []]"
      from fits_positive [OF fv] obtain m where n: "n = Suc m" ..
      have "fits conv n ?h1 (Ref (length h))" using n fits_empty by simp
      moreover have "fits conv n ?h1 v" using fv by (rule fits_append)
      ultimately obtain a ext where
        m: "mrg ?h1 [Ref (length h), v] = Some (Inr (Ref a), ?h1 @ ext)" and a: "length ?h1 \<le> a"
        and fa: "fits conv n (?h1 @ ext) (Ref a)"
        using t unfolding total_on_def
        by (metis list.distinct(1) list.set_intros(1) set_ConsD empty_iff empty_set)
      have "okval conv n (h @ ([Cell Plain [] []] @ ext)) (Ref a)"
        using fa fits_valid [OF fa] by (simp add: okval_def)
      moreover have "fresh h0 (h @ ([Cell Plain [] []] @ ext)) (Ref a)"
        using a pre by (simp add: fresh_def)
      ultimately have "merge_inv conv n h0 (h @ ([Cell Plain [] []] @ ext), put R k (Ref a))"
        by (rule merge_inv_put [OF inv' k])
      then show ?thesis
        using True cur m st by (simp add: assignValue_def alloc_def)
    qed
  next
    case False
    show ?thesis
    proof (cases "isArray h v")
      case True
      then obtain a where va: "v = Ref a"
        by (cases v) (auto simp: isArray_def)
      let ?c = "Cell Array [] (elems (h ! a))"
      have "okval conv n (h @ [?c]) (Ref (length h))"
        by (simp add: okval_def)
      moreover have "fresh h0 (h @ [?c]) (Ref (length h))"
        using pre by (simp add: fresh_def)
      ultimately have "merge_inv conv n h0 (h @ [?c], put R k (Ref (length h)))"
        by (rule merge_inv_put [OF inv' k])
      then show ?thesis
        using False True va st by (simp add: assignValue_def alloc_def)
    next
      case arr: False
      have "okval conv n (h @ []) v" using v st by simp
      moreover have "fresh h0 (h @ []) v" using False arr by (simp add: fresh_def)
      ultimately have "merge_inv conv n h0 (h @ [], put R k v)"
        by (rule merge_inv_put [OF inv' k])
      then show ?thesis
        using False arr st by (simp add: assignValue_def)
    qed
  qed
qed

text \<open>
  A loop whose every step ends normally and keeps \<open>P\<close> ends normally and keeps \<open>P\<close>.
\<close>

lemma each_keys_total:
  assumes step: "\<And>v k st. P st \<Longrightarrow> Q st v \<Longrightarrow> K k \<Longrightarrow> \<exists>st'. iteratee v k st = Some (Done st') \<and> P st'"
    and rd: "\<And>st k. P st \<Longrightarrow> k \<in> set ks \<Longrightarrow> Q st (rd st k)"
    and keys: "\<And>k. k \<in> set ks \<Longrightarrow> K (name k)"
    and "P st"
  shows "\<exists>st'. each_keys rd name iteratee ks st = Some (Done st') \<and> P st'"
  using rd keys \<open>P st\<close>
proof (induction ks arbitrary: st)
  case Nil
  then show ?case by simp
next
  case (Cons k ks)
  have "Q st (rd st k)" using Cons.prems(1,3) by simp
  moreover have "K (name k)" using Cons.prems(2) by simp
  ultimately obtain st1 where s1: "iteratee (rd st k) (name k) st = Some (Done st1)" and p1: "P st1"
    using step Cons.prems(3) by blast
  have "\<exists>st'. each_keys rd name iteratee ks st1 = Some (Done st') \<and> P st'"
    using Cons.IH [of st1] Cons.prems(1,2) p1 by simp
  with s1 show ?case by simp
qed

lemma source_cell:
  assumes "fits conv (Suc n) h0 (Ref a)" and "prefix h0 h"
  shows "cell_at h a = Some (h0 ! a)" and "cls_of (h0 ! a) = Plain"
  using assms fits_valid [OF assms(1)] by (auto simp: prefix_def cell_at_def nth_append)

lemma okval_prefix: "okval conv n h0 x \<Longrightarrow> prefix h0 h \<Longrightarrow> okval conv n h x"
  by (auto simp: prefix_def okval_append)

lemma source_index:
  assumes "fits conv (Suc n) h0 (Ref a)" and "''length'' \<in> set (map fst (props (h0 ! a)))"
    and "index_bound conv (lookup (props (h0 ! a)) ''length'') = Some m" and "i < m"
    and "prefix h0 h"
  shows "okval conv n h (lookup (props (h0 ! a)) (digits i))"
proof -
  have "okval conv n h0 (lookup (props (h0 ! a)) (digits i))"
    using assms(1,2,3,4) unfolding fits_Ref_iff by auto
  then show ?thesis using assms(5) by (rule okval_prefix)
qed

lemma source_key:
  assumes "fits conv (Suc n) h0 (Ref a)" and "''length'' \<notin> set (map fst (props (h0 ! a)))"
    and "prefix h0 h"
  shows "okval conv n h (lookup (props (h0 ! a)) k)"
proof -
  have "okval conv n h0 (lookup (props (h0 ! a)) k)"
  proof (cases "lookup (props (h0 ! a)) k = Undefined")
    case True
    then show ?thesis by (simp add: okval_def)
  next
    case False
    then have "lookup (props (h0 ! a)) k \<in> set (map snd (props (h0 ! a)))"
      using lookup_cases by blast
    with assms(1,2) show ?thesis unfolding fits_Ref_iff by auto
  qed
  then show ?thesis using assms(3) by (rule okval_prefix)
qed

lemma each_total:
  assumes t: "total_on conv n mrg" and s: "fits conv (Suc n) h0 s" and inv: "merge_inv conv n h0 st"
  shows "\<exists>st'. each conv fst s (assignValue mrg) st = Some (Done st') \<and> merge_inv conv n h0 st'"
proof -
  from fits_Ref [OF s] obtain a where sa: "s = Ref a" ..
  let ?ps = "props (h0 ! a)"
  have fa: "fits conv (Suc n) h0 (Ref a)" using s sa by simp
  have pre: "prefix h0 (fst st)" using inv by (simp add: merge_inv_def)
  note cell = source_cell [OF fa]
  have step: "\<And>v k st. merge_inv conv n h0 st \<Longrightarrow> okval conv n (fst st) v \<Longrightarrow> k \<noteq> ''length'' \<Longrightarrow>
                \<exists>st'. assignValue mrg v k st = Some (Done st') \<and> merge_inv conv n h0 st'"
    using assignValue_total [OF t] by blast
  have nf: "\<not> isFunction (fst st) s"
    using cell [OF pre] sa by (simp add: isFunction_def)
  show ?thesis
  proof (cases "''length'' \<in> set (map fst ?ps)")
    case True
    then have al: "isArrayLike (fst st) s = Inr True"
      using cell [OF pre] sa nf by (simp add: isArrayLike_def hasOwnProperty_def)
    have "get (fst st) s ''length'' = lookup ?ps ''length''"
      using cell [OF pre] sa by (simp add: get_def lookup_def split: option.splits)
    moreover from fa True obtain m where m: "index_bound conv (lookup ?ps ''length'') = Some m"
      unfolding fits_Ref_iff by auto
    ultimately have e: "each conv fst s (assignValue mrg) st =
        each_keys (\<lambda>st' i. elem_read (fst st') s i) digits (assignValue mrg) [0 ..< m] st"
      using al sa by (simp add: each_def)
    have "\<exists>st'. each_keys (\<lambda>st' i. elem_read (fst st') s i) digits (assignValue mrg) [0 ..< m] st
            = Some (Done st') \<and> merge_inv conv n h0 st'"
    proof (rule each_keys_total [where P = "merge_inv conv n h0" and Q = "\<lambda>st v. okval conv n (fst st) v"
          and K = "\<lambda>k. k \<noteq> ''length''"])
      show "\<And>v k st. merge_inv conv n h0 st \<Longrightarrow> okval conv n (fst st) v \<Longrightarrow> k \<noteq> ''length'' \<Longrightarrow>
              \<exists>st'. assignValue mrg v k st = Some (Done st') \<and> merge_inv conv n h0 st'"
        by (rule step)
      show "\<And>st k. merge_inv conv n h0 st \<Longrightarrow> k \<in> set [0 ..< m] \<Longrightarrow> okval conv n (fst st) (elem_read (fst st) s k)"
      proof -
        fix st' :: "heap \<times> (string \<times> val) list" and k :: nat
        assume "merge_inv conv n h0 st'"
        then have p: "prefix h0 (fst st')" by (simp add: merge_inv_def)
        have "elem_read (fst st') s k = lookup ?ps (digits k)"
          using cell [OF p] sa by (simp add: elem_read_def)
        moreover assume "k \<in> set [0 ..< m]"
        ultimately show "okval conv n (fst st') (elem_read (fst st') s k)"
          using source_index [OF fa True m _ p] by simp
      qed
      show "\<And>k. k \<in> set [0 ..< m] \<Longrightarrow> digits k \<noteq> ''length''"
        by (rule digits_not_length)
      show "merge_inv conv n h0 st" by (rule inv)
    qed
    with e show ?thesis by simp
  next
    case False
    then have al: "isArrayLike (fst st) s = Inr False"
      using cell [OF pre] sa nf by (simp add: isArrayLike_def hasOwnProperty_def)
    have "Object_keys (fst st) s = map fst ?ps"
      using cell [OF pre] sa by (simp add: Object_keys_def)
    then have e: "each conv fst s (assignValue mrg) st =
        each_keys (\<lambda>st' k. key_read (fst st') s k) (\<lambda>k. k) (assignValue mrg) (map fst ?ps) st"
      using al sa by (simp add: each_def forOwn_def)
    have "\<exists>st'. each_keys (\<lambda>st' k. key_read (fst st') s k) (\<lambda>k. k) (assignValue mrg) (map fst ?ps) st
            = Some (Done st') \<and> merge_inv conv n h0 st'"
    proof (rule each_keys_total [where P = "merge_inv conv n h0" and Q = "\<lambda>st v. okval conv n (fst st) v"
          and K = "\<lambda>k. k \<noteq> ''length''"])
      show "\<And>v k st. merge_inv conv n h0 st \<Longrightarrow> okval conv n (fst st) v \<Longrightarrow> k \<noteq> ''length'' \<Longrightarrow>
              \<exists>st'. assignValue mrg v k st = Some (Done st') \<and> merge_inv conv n h0 st'"
        by (rule step)
      show "\<And>st k. merge_inv conv n h0 st \<Longrightarrow> k \<in> set (map fst ?ps) \<Longrightarrow>
              okval conv n (fst st) (key_read (fst st) s k)"
      proof -
        fix st' :: "heap \<times> (string \<times> val) list" and k :: string
        assume "merge_inv conv n h0 st'"
        then have p: "prefix h0 (fst st')" by (simp add: merge_inv_def)
        have "key_read (fst st') s k = lookup ?ps k"
          using cell [OF p] sa by (simp add: key_read_def)
        then show "okval conv n (fst st') (key_read (fst st') s k)"
          using source_key [OF fa False p] by simp
      qed
      show "\<And>k. k \<in> set (map fst ?ps) \<Longrightarrow> k \<noteq> ''length''"
        using False by blast
      show "merge_inv conv n h0 st" by (rule inv)
    qed
    with e show ?thesis by simp
  qed
qed

lemma merge_sources_total:
  assumes t: "total_on conv n mrg" and s: "\<forall>s \<in> set args. fits conv (Suc n) h0 s" and inv: "merge_inv conv n h0 st"
  shows "\<exists>st'. merge_sources conv mrg args st = Some (Done st') \<and> merge_inv conv n h0 st'"
  using s inv
proof (induction args arbitrary: st)
  case Nil
  then show ?case by simp
next
  case (Cons a as)
  from Cons.prems obtain st1 where
    e: "each conv fst a (assignValue mrg) st = Some (Done st1)" and i1: "merge_inv conv n h0 st1"
    using each_total [OF t, of h0 a st] by auto
  from Cons.IH [of st1] Cons.prems(1) i1 obtain st' where
    "merge_sources conv mrg as st1 = Some (Done st')" and "merge_inv conv n h0 st'"
    by auto
  with e show ?case by simp
qed

lemma merge_body_total:
  assumes t: "total_on conv n mrg" and s: "\<forall>s \<in> set args. fits conv (Suc n) h s"
  shows "\<exists>a ext. merge_body conv mrg h args = Some (Inr (Ref a), h @ ext) \<and> length h \<le> a
            \<and> Suc a = length (h @ ext)
            \<and> fits conv (Suc n) (h @ ext) (Ref a)
            \<and> (\<forall>x \<in> set (map snd (props ((h @ ext) ! a))). fresh h (h @ ext) x)"
proof -
  have "merge_inv conv n h (h, [])" by (simp add: merge_inv_def)
  from merge_sources_total [OF t s this] obtain h1 R where
    m: "merge_sources conv mrg args (h, []) = Some (Done (h1, R))" and inv: "merge_inv conv n h (h1, R)"
    by auto
  from inv obtain ext1 where h1: "h1 = h @ ext1" by (auto simp: merge_inv_def prefix_def)
  let ?ext = "ext1 @ [Cell Plain R []]"
  have r: "merge_body conv mrg h args = Some (Inr (Ref (length h1)), h @ ?ext)"
    using m h1 by (simp add: merge_body_def alloc_def)
  have "map_of R ''length'' = None"
    using inv by (simp add: merge_inv_def map_of_eq_None_iff)
  then have nl: "lookup R ''length'' = Undefined"
    by (simp add: lookup_def)
  have vals: "\<And>x. x \<in> set (map snd R) \<Longrightarrow> okval conv n (h @ ?ext) x \<and> fresh h (h @ ?ext) x"
  proof -
    fix x assume "x \<in> set (map snd R)"
    then have "okval conv n h1 x" and "fresh h h1 x" using inv by (auto simp: merge_inv_def)
    then have "okval conv n (h1 @ [Cell Plain R []]) x" and "fresh h (h1 @ [Cell Plain R []]) x"
      using okval_append fresh_append by blast+
    then show "okval conv n (h @ ?ext) x \<and> fresh h (h @ ?ext) x" using h1 by simp
  qed
  have cellr: "(h @ ?ext) ! length h1 = Cell Plain R []"
    using h1 by (simp add: nth_append)
  have "fits conv (Suc n) (h @ ?ext) (Ref (length h1))"
    using cellr h1 nl vals by (auto simp: okval_def)
  moreover have "\<forall>x \<in> set (map snd (props ((h @ ?ext) ! length h1))). fresh h (h @ ?ext) x"
    using cellr vals by auto
  moreover have "length h \<le> length h1" and "Suc (length h1) = length (h @ ?ext)"
    using h1 by simp_all
  ultimately show ?thesis using r by blast
qed

lemma total_on_Suc: "total_on conv n mrg \<Longrightarrow> total_on conv (Suc n) (merge_body conv mrg)"
  unfolding total_on_def [of conv "Suc n"] using merge_body_total by blast

text \<open>
  With \<open>n\<close> levels of fuel \<open>merge\<close> returns on sources nested at most \<open>n\<close> deep; what it
  returns is the last object of the store it leaves, a plain object that fits in its turn,
  whose array and plain-object values are all new.
\<close>

lemma merge_total_on: "total_on conv n (merge conv n)"
proof (induction n)
  case 0
  show ?case by (auto simp: total_on_def)
next
  case (Suc n)
  then show ?case by (simp add: total_on_Suc)
qed

lemma merge_total:
  assumes "\<forall>s \<in> set args. fits conv (Suc n) h s"
  shows "\<exists>a ext. merge conv (Suc n) h args = Some (Inr (Ref a), h @ ext) \<and> length h \<le> a
            \<and> Suc a = length (h @ ext)
            \<and> fits conv (Suc n) (h @ ext) (Ref a)
            \<and> (\<forall>x \<in> set (map snd (props ((h @ ext) ! a))). fresh h (h @ ext) x)"
  using merge_body_total [OF merge_total_on assms] by simp


section \<open>Properties of the deep merge: merging a mapping with itself\<close>








lemma plain_tree_values:
  assumes "plain_tree (Suc n) h (Ref a)" and "x \<in> set (map snd (props (h ! a)))"
  shows "tokval n h x"
  using assms unfolding tokval_def by (simp only: plain_tree.simps val.case)

lemma plain_tree_valid:
  "plain_tree n h (Ref a) \<Longrightarrow> a < length h \<and> cls_of (h ! a) = Plain"
  by (cases n) auto





text \<open>Property lists with the same keys, compared key by key.\<close>

lemma map_of_put_same: "map_of (put ps k v) k = Some v"
  by (induction ps) auto

lemma map_of_put_other: "k' \<noteq> k \<Longrightarrow> map_of (put ps k v) k' = map_of ps k'"
  by (induction ps) auto


lemma lookup_put_other: "k' \<noteq> k \<Longrightarrow> lookup (put R k w) k' = lookup R k'"
  by (simp add: lookup_def map_of_put_other)







lemma each_empty:
  assumes "empty_obj h0 x" and "prefix h0 h"
  shows "each conv fst x iteratee (h, R) = Some (Done (h, R))"
proof -
  from assms obtain e where x: "x = Ref e" and c: "cell_at h e = Some (h0 ! e)"
    and p: "cls_of (h0 ! e) = Plain" "props (h0 ! e) = []"
    by (cases x) (auto simp: empty_obj_def prefix_def cell_at_def nth_append)
  then show ?thesis
    by (simp add: each_def isArrayLike_def isFunction_def hasOwnProperty_def forOwn_def
        Object_keys_def)
qed






text \<open>A deeper bound never hurts, and a plain tree fits.\<close>

lemma okval_Suc: "(\<And>v. fits conv n h v \<Longrightarrow> fits conv (Suc n) h v) \<Longrightarrow> okval conv n h x \<Longrightarrow> okval conv (Suc n) h x"
  unfolding okval_def by (cases x) (simp_all del: fits.simps)

lemma fits_Suc: "fits conv n h v \<Longrightarrow> fits conv (Suc n) h v"
proof (induction n arbitrary: v)
  case 0
  then show ?case by simp
next
  case (Suc n)
  from fits_Ref [OF Suc.prems] obtain a where v: "v = Ref a" ..
  have o: "okval conv (Suc n) h x" if "okval conv n h x" for x
    using Suc.IH that by (rule okval_Suc)
  from Suc.prems show ?case
    unfolding v fits_Ref_iff [of conv "Suc n"] fits_Ref_iff [of conv n]
    using o by (auto split: if_splits)
qed

lemma fits_mono: "fits conv n h v \<Longrightarrow> n \<le> m \<Longrightarrow> fits conv m h v"
proof (induction m)
  case 0
  then show ?case by simp
next
  case (Suc m)
  show ?case
  proof (cases "n = Suc m")
    case True
    with Suc.prems show ?thesis by simp
  next
    case False
    with Suc.prems have "n \<le> m" by simp
    with Suc have "fits conv m h v" by simp
    then show ?thesis by (rule fits_Suc)
  qed
qed

lemma tokval_Suc:
  "(\<And>v. plain_tree n h v \<Longrightarrow> plain_tree (Suc n) h v) \<Longrightarrow> tokval n h x \<Longrightarrow> tokval (Suc n) h x"
  unfolding tokval_def by (cases x) (simp_all del: plain_tree.simps)

lemma plain_tree_Suc: "plain_tree n h v \<Longrightarrow> plain_tree (Suc n) h v"
proof (induction n arbitrary: v)
  case 0
  then show ?case by simp
next
  case (Suc n)
  from Suc.prems obtain a where v: "v = Ref a" by (cases v) auto
  from Suc.prems v have p: "a < length h" "cls_of (h ! a) = Plain"
    "distinct (map fst (props (h ! a)))" "''length'' \<notin> set (map fst (props (h ! a)))"
    "''__proto__'' \<notin> set (map fst (props (h ! a)))"
    by simp_all
  have "\<forall>x \<in> set (map snd (props (h ! a))). tokval (Suc n) h x"
  proof
    fix x assume "x \<in> set (map snd (props (h ! a)))"
    with Suc.prems v have "tokval n h x" using plain_tree_values by simp
    then show "tokval (Suc n) h x" using Suc.IH by (rule tokval_Suc [rotated])
  qed
  then have "\<forall>x \<in> set (map snd (props (h ! a))).
               case x of Ref b \<Rightarrow> b < length h \<and> (cls_of (h ! b) = Plain \<longrightarrow> plain_tree (Suc n) h x)
               | _ \<Rightarrow> True"
    unfolding tokval_def .
  with p show ?case unfolding v by (simp only: plain_tree.simps val.case) simp
qed

lemma plain_tree_mono: "plain_tree n h v \<Longrightarrow> n \<le> m \<Longrightarrow> plain_tree m h v"
proof (induction m)
  case 0
  then show ?case by simp
next
  case (Suc m)
  show ?case
  proof (cases "n = Suc m")
    case True
    with Suc.prems show ?thesis by simp
  next
    case False
    with Suc.prems have "n \<le> m" by simp
    with Suc have "plain_tree m h v" by simp
    then show ?thesis by (rule plain_tree_Suc)
  qed
qed



section \<open>Properties of the deep merge: what it returns is new\<close>



lemma fresh_valid_append: "valid h x \<Longrightarrow> fresh h0 h x \<Longrightarrow> fresh h0 (h @ ext) x"
  by (cases x) (auto simp: valid_def fresh_def isArray_def isPlainObject_def cell_at_def nth_append
      split: if_splits)

lemma fresh_valid_prefix: "valid h x \<Longrightarrow> fresh h0 h x \<Longrightarrow> prefix h h' \<Longrightarrow> fresh h0 h' x"
  by (auto simp: prefix_def fresh_valid_append)























text \<open>
  \<open>merge\<close> does not return on an object that contains itself, whatever the fuel: each
  level of the recursion meets the object again.
\<close>

lemma self_object_pass:
  assumes p: "prefix self_object h"
    and m: "mrg (h @ [Cell Plain [] []]) [Ref (length h), Ref 0] = None"
  shows "each conv fst (Ref 0) (assignValue mrg) (h, []) = None"
proof -
  from p obtain ext where h: "h = self_object @ ext" by (auto simp: prefix_def)
  have c: "cell_at h 0 = Some (Cell Plain [(''self'', Ref 0)] [])"
    using h by (simp add: cell_at_def self_object_def)
  have "assignValue mrg (Ref 0) ''self'' (h, []) = None"
    using c m by (simp add: assignValue_def isPlainObject_def lookup_def alloc_def)
  then show ?thesis
    using c by (simp add: each_def isArrayLike_def isFunction_def hasOwnProperty_def forOwn_def
        Object_keys_def key_read_def lookup_def)
qed

lemma merge_into_empty_self_object:
  "prefix self_object h \<Longrightarrow> empty_obj h x \<Longrightarrow> merge conv n h [x, Ref 0] = None"
proof (induction n arbitrary: h x)
  case 0
  show ?case by simp
next
  case (Suc n)
  let ?h1 = "h @ [Cell Plain [] []]"
  have "prefix self_object ?h1" using Suc.prems(1) by (auto simp: prefix_def)
  moreover have "empty_obj ?h1 (Ref (length h))" by (simp add: empty_obj_def)
  ultimately have "merge conv n ?h1 [Ref (length h), Ref 0] = None" by (rule Suc.IH)
  then have "each conv fst (Ref 0) (assignValue (merge conv n)) (h, []) = None"
    using self_object_pass [OF Suc.prems(1)] by simp
  moreover have "each conv fst x (assignValue (merge conv n)) (h, []) = Some (Done (h, []))"
    using each_empty [OF Suc.prems(2), of h] by simp
  ultimately show ?case by (simp add: merge_body_def)
qed

lemma merge_self_object: "merge conv n self_object [Ref 0, Ref 0] = None"
proof (cases n)
  case 0
  then show ?thesis by simp
next
  case (Suc m)
  let ?h1 = "self_object @ [Cell Plain [] []]"
  have "prefix self_object ?h1" by simp
  moreover have "empty_obj ?h1 (Ref (length self_object))" by (simp add: empty_obj_def)
  ultimately have "merge conv m ?h1 [Ref (length self_object), Ref 0] = None"
    by (rule merge_into_empty_self_object)
  then have "each conv fst (Ref 0) (assignValue (merge conv m)) (self_object, []) = None"
    using self_object_pass [of self_object] by simp
  then show ?thesis using Suc by (simp add: merge_body_def)
qed

section \<open>Properties of the deep merge: claim C4\<close>

text \<open>
  The \<open>slice\<close> of \<open>assignValue\<close>: an array value is stored as a new array with the same
  elements.
\<close>

lemma assignValue_copies_array:
  assumes "isArray h (Ref a)"
  shows "assignValue mrg (Ref a) k (h, R)
           = Some (Done (h @ [Cell Array [] (elems (h ! a))], put R k (Ref (length h))))"
proof -
  have "\<not> isPlainObject h (Ref a)"
    using assms by (auto simp: isArray_def isPlainObject_def split: option.splits)
  with assms show ?thesis by (simp add: assignValue_def alloc_def)
qed



text \<open>
  The copy of an array is shallow: in \<open>merge({x: [[1]]})\<close> the array under \<open>x\<close> is a new
  one, object 3, and its element is the inner array of the source, object 0.
\<close>

lemma merge_array_in_array:
  "merge conv 1 array_in_array [Ref 2]
     = Some (Inr (Ref 4), array_in_array @ [Cell Array [] [Ref 0], Cell Plain [(''x'', Ref 3)] []])"
  by code_simp

text \<open>
  A \<open>length\<close> that is a string is converted by the host: with \<open>'2'\<close> converted to 2, the
  object \<open>{length: '2', 0: 'a', 1: 'b'}\<close> is walked by index, twice.
\<close>

lemma digits_0_1: "digits 0 = ''0''" "digits (Suc 0) = ''1''"
  by (simp_all add: digits.simps digit_char_def)

lemma merge_string_length:
  assumes "conv (Str ''2'') = Some 2"
  shows "merge conv 1 string_length [Ref 0]
           = Some (Inr (Ref 1), string_length @ [Cell Plain [(''0'', Str ''a''), (''1'', Str ''b'')] []])"
proof -
  have u: "[0 ..< 2] = [0, Suc 0]" by (simp add: upt_rec numeral_2_eq_2)
  show ?thesis
    using assms
    by (simp add: string_length_def merge_body_def each_def isArrayLike_def isFunction_def
        hasOwnProperty_def cell_at_def get_def alloc_def u elem_read_def lookup_def digits_0_1
        assignValue_def isPlainObject_def isArray_def)
qed




section \<open>Properties of the factory\<close>

lemma createInstance_heap: "heap (snd (createInstance w c)) = heap w"
  by (simp add: createInstance_def ProxyAxios_def Axios_def Let_def split: option.splits)

lemma createInstance_cached:
  assumes "singleton w = Some i" and "i < length (instances w)"
    and "create_closure (instances w ! i) \<noteq> None"
    and "truthy c" and "truthy (get (heap w) c ''useSingleton'')"
  shows "createInstance w c = (Inr i, w)"
  using assms by (auto simp: createInstance_def ProxyAxios_def)

lemma createInstances_cached:
  assumes "singleton w = Some i" and "i < length (instances w)"
    and "create_closure (instances w ! i) \<noteq> None"
    and "\<forall>c \<in> set cs. truthy c \<and> truthy (get (heap w) c ''useSingleton'')"
  shows "createInstances w cs = (replicate (length cs) (Inr i), w)"
  using assms(4)
proof (induction cs)
  case Nil
  show ?case by simp
next
  case (Cons c cs)
  then show ?case using createInstance_cached [OF assms(1,2,3), of c] by simp
qed

text \<open>
  Claim C5: in a world where the singleton has not been made, a run of \<open>createInstance\<close>
  calls whose configs all ask for the singleton returns the same instance every time, the
  one the first call made from the first config; the world after the run is the world
  after the first call: one instance more, with \<open>defaults\<close> the first config, whatever the
  later configs were.
\<close>

theorem singleton_first_writer_wins:
  assumes "singleton w = None"
    and "\<forall>c \<in> set (c0 # cs). truthy c \<and> truthy (get (heap w) c ''useSingleton'')"
  shows "createInstances w (c0 # cs)
           = (replicate (Suc (length cs)) (Inr (length (instances w))),
              w\<lparr>instances := instances w @
                   [\<lparr>defaults = c0, request_manager = [], response_manager = [],
                     create_closure = Some c0\<rparr>],
                 singleton := Some (length (instances w))\<rparr>)"
proof -
  let ?i = "length (instances w)"
  let ?w1 = "w\<lparr>instances := instances w @
                   [\<lparr>defaults = c0, request_manager = [], response_manager = [],
                     create_closure = Some c0\<rparr>],
                 singleton := Some ?i\<rparr>"
  have first: "createInstance w c0 = (Inr ?i, ?w1)"
    using assms by (simp add: createInstance_def ProxyAxios_def Axios_def)
  have rest: "createInstances ?w1 cs = (replicate (length cs) (Inr ?i), ?w1)"
    by (rule createInstances_cached) (use assms(2) in simp_all)
  from first rest show ?thesis by simp
qed

text \<open>
  The theorem at two configs, the second with a \<open>baseURL\<close> the first has not: both calls
  return instance 0, whose \<open>defaults\<close> is the first config.
\<close>

theorem singleton_first_writer_wins_witness:
  "singleton (world0 two_singleton_configs) = None
   \<and> truthy (Ref 0)
   \<and> truthy (get (heap (world0 two_singleton_configs)) (Ref 0) ''useSingleton'')
   \<and> truthy (Ref 1)
   \<and> truthy (get (heap (world0 two_singleton_configs)) (Ref 1) ''useSingleton'')
   \<and> createInstances (world0 two_singleton_configs) [Ref 0, Ref 1]
       = ([Inr 0, Inr 0],
          \<lparr>heap = two_singleton_configs,
           instances = [\<lparr>defaults = Ref 0, request_manager = [], response_manager = [],
                         create_closure = Some (Ref 0)\<rparr>],
           singleton = Some 0\<rparr>)"
proof -
  have n: "singleton (world0 two_singleton_configs) = None"
    by (simp add: world0_def)
  have t0: "truthy (get (heap (world0 two_singleton_configs)) (Ref 0) ''useSingleton'')"
    and t1: "truthy (get (heap (world0 two_singleton_configs)) (Ref 1) ''useSingleton'')"
    by (simp_all add: world0_def two_singleton_configs_def get_def cell_at_def)
  have t: "\<forall>c \<in> set (Ref 0 # [Ref 1]).
             truthy c \<and> truthy (get (heap (world0 two_singleton_configs)) c ''useSingleton'')"
    using t0 t1 by simp
  from singleton_first_writer_wins [OF n t] n t0 t1 show ?thesis
    by (simp add: world0_def)
qed

text \<open>
  Writing a boolean under a key that is neither \<open>length\<close> nor an index keeps every
  object that fits fitting;
  the world \<open>create\<close> reaches extends the store the assignment has left; and \<open>create\<close>
  returns an instance when the merge has what fits to work on.
\<close>

lemma digits_not_useSingleton: "digits i \<noteq> ''useSingleton''"
proof
  assume "digits i = ''useSingleton''"
  then have "CHR ''u'' \<in> set (digits i)" by simp
  with digits_chars [of i] show False by auto
qed

lemma fits_assign:
  assumes a: "a < length h" and k: "k \<noteq> ''length''" and ki: "\<And>i. digits i \<noteq> k"
  shows "fits conv n h v \<Longrightarrow>
         fits conv n (h[a := Cell (cls_of (h ! a)) (put (props (h ! a)) k (Bool b)) (elems (h ! a))]) v"
proof (induction n arbitrary: v)
  case 0
  then show ?case by simp
next
  case (Suc n)
  let ?h = "h[a := Cell (cls_of (h ! a)) (put (props (h ! a)) k (Bool b)) (elems (h ! a))]"
  have cls: "cls_of (?h ! x) = cls_of (h ! x)" if "x < length h" for x
    using that by (cases "x = a") simp_all
  have look: "lookup (props (?h ! x)) k' = lookup (props (h ! x)) k'"
    if "x < length h" and "k' \<noteq> k" for x k'
    using that by (cases "x = a") (simp_all add: lookup_put_other)
  have keys: "(''length'' \<in> set (map fst (props (?h ! x)))) = (''length'' \<in> set (map fst (props (h ! x))))"
    if "x < length h" for x
  proof (cases "x = a")
    case True
    with that have "set (map fst (props (?h ! x))) = insert k (set (map fst (props (h ! x))))"
      using put_keys [of "props (h ! a)" k "Bool b"] by simp
    with k show ?thesis by auto
  next
    case False
    then show ?thesis by simp
  qed
  have vals: "y = Bool b \<or> y \<in> set (map snd (props (h ! x)))"
    if x: "x < length h" and y: "y \<in> set (map snd (props (?h ! x)))" for x y
  proof (cases "x = a")
    case True
    with x y have "y \<in> set (map snd (put (props (h ! a)) k (Bool b)))" by simp
    then show ?thesis using put_values [of "props (h ! a)" k "Bool b"] True by auto
  next
    case False
    with y show ?thesis by simp
  qed
  have o: "okval conv n ?h y" if ok: "okval conv n h y" for y
  proof (rule okval_transfer [OF _ _ ok])
    show "\<And>v. fits conv n h v \<Longrightarrow> fits conv n ?h v" by (rule Suc.IH)
    show "\<And>z. z < length h \<Longrightarrow> z < length ?h \<and> cls_of (?h ! z) = cls_of (h ! z)"
      using cls by simp
  qed
  from fits_Ref [OF Suc.prems] obtain x where v: "v = Ref x" ..
  from Suc.prems v have f: "fits conv (Suc n) h (Ref x)" by simp
  then have x: "x < length h" and p: "cls_of (h ! x) = Plain" using fits_valid by blast+
  show ?case
  proof (cases "''length'' \<in> set (map fst (props (h ! x)))")
    case True
    with f obtain m where m: "index_bound conv (lookup (props (h ! x)) ''length'') = Some m"
      and i: "\<forall>i < m. okval conv n h (lookup (props (h ! x)) (digits i))"
      unfolding fits_Ref_iff by auto
    have "index_bound conv (lookup (props (?h ! x)) ''length'') = Some m"
      using m look [OF x, of "''length''"] k by simp
    moreover have "\<forall>i < m. okval conv n ?h (lookup (props (?h ! x)) (digits i))"
      using i o look [OF x ki] by simp
    ultimately show ?thesis
      unfolding v fits_Ref_iff using True x p cls [OF x] keys [OF x] by simp
  next
    case False
    with f have i: "\<forall>y \<in> set (map snd (props (h ! x))). okval conv n h y"
      unfolding fits_Ref_iff by auto
    have "\<forall>y \<in> set (map snd (props (?h ! x))). okval conv n ?h y"
    proof
      fix y assume "y \<in> set (map snd (props (?h ! x)))"
      then consider "y = Bool b" | "y \<in> set (map snd (props (h ! x)))"
        using vals [OF x] by blast
      then show "okval conv n ?h y"
      proof cases
        case 1
        then show ?thesis by (simp add: okval_def)
      next
        case 2
        with i o show ?thesis by blast
      qed
    qed
    then show ?thesis
      unfolding v fits_Ref_iff using False x p cls [OF x] keys [OF x] by simp
  qed
qed

lemma create_world:
  assumes "i < length (instances w)"
    and "create_closure (instances w ! i) = Some defaultConfig"
    and "assign locks (heap w) c ''useSingleton'' (Bool False) = Inr h1"
  shows "prefix h1 (heap (snd (create conv locks n w i c)))"
proof (cases "mergeConfig conv n h1 defaultConfig c")
  case None
  with assms show ?thesis by (simp add: create_def)
next
  case (Some p)
  obtain r h2 where p: "p = (r, h2)" by (cases p)
  have pre: "prefix h1 h2"
    using Some p merge_prefix by (simp add: mergeConfig_def)
  show ?thesis
  proof (cases r)
    case (Inl e)
    with assms Some p pre show ?thesis by (simp add: create_def)
  next
    case (Inr config)
    obtain r' w' where ci: "createInstance (w\<lparr>heap := h2\<rparr>) config = (r', w')"
      by (cases "createInstance (w\<lparr>heap := h2\<rparr>) config")
    have "heap w' = h2"
      using createInstance_heap [of "w\<lparr>heap := h2\<rparr>" config] ci by simp
    with assms Some p Inr pre ci show ?thesis
      by (simp add: create_def)
  qed
qed

lemma createInstance_returns:
  assumes "truthy c"
  shows "\<exists>j w'. createInstance w c = (Inr j, w')"
proof -
  obtain j w1 where
    "(if truthy (get (heap w) c ''useSingleton'') then ProxyAxios w c else Axios w c) = (j, w1)"
    by (cases "if truthy (get (heap w) c ''useSingleton'') then ProxyAxios w c else Axios w c")
  with assms show ?thesis
    by (cases "create_closure (instances w1 ! j) = None") (simp_all add: createInstance_def)
qed

lemma create_returns:
  assumes "i < length (instances w)"
    and "create_closure (instances w ! i) = Some defaultConfig"
    and "assign locks (heap w) c ''useSingleton'' (Bool False) = Inr h1"
    and "fits conv n h1 defaultConfig" and "fits conv n h1 c"
  shows "\<exists>j. fst (create conv locks n w i c) = Some (Inr j)"
proof -
  from fits_positive [OF assms(4)] obtain m where n: "n = Suc m" ..
  have "\<forall>s \<in> set [defaultConfig, c]. fits conv (Suc m) h1 s" using assms(4,5) n by simp
  from merge_total [OF this] obtain r ext where
    m: "mergeConfig conv n h1 defaultConfig c = Some (Inr (Ref r), h1 @ ext)"
    using n by (auto simp: mergeConfig_def)
  obtain j w' where "createInstance (w\<lparr>heap := h1 @ ext\<rparr>) (Ref r) = (Inr j, w')"
    using createInstance_returns [of "Ref r" "w\<lparr>heap := h1 @ ext\<rparr>"] by auto
  with assms(1,2,3) m show ?thesis by (simp add: create_def)
qed

text \<open>The two example calls give what they give whatever the host's conversion is.\<close>

lemma create_unlocked:
  "create conv unlocked 2 world1 0 (Ref 1) = (Some (Inr 1), world2)"
  by code_simp

lemma create_frozen:
  "create conv frozen_overrides 2 world1 0 (Ref 1) = (Some (Inr 0), world3)"
  by code_simp

text \<open>
  Claim C10, as stated, fails for an overrides object that the caller has frozen. The
  assignment \<open>instanceConfig.useSingleton = false\<close> is dropped (the source has no
  strict-mode directive; in strict code it would throw, and leave the object as unchanged):
  after \<open>create({baseURL: 'x'})\<close> on the singleton, with that object frozen, the object
  still has no \<open>useSingleton\<close>. The merged config keeps the \<open>useSingleton: true\<close> of the
  defaults, and the call returns the singleton itself, instance 0.
\<close>

theorem create_mutates_overrides_counterexample:
  "0 < length (instances world1)
   \<and> create_closure (instances world1 ! 0) = Some (Ref 0)
   \<and> isPlainObject (heap world1) (Ref 1)
   \<and> \<not> writable frozen_overrides (heap world1) 1 ''useSingleton''
   \<and> create no_rounds frozen_overrides 2 world1 0 (Ref 1) = (Some (Inr 0), world3)
   \<and> get (heap world3) (Ref 1) ''useSingleton'' = Undefined"
proof -
  have "0 < length (instances world1)"
    and "create_closure (instances world1 ! 0) = Some (Ref 0)"
    by (simp_all add: world1_def)
  moreover have "isPlainObject (heap world1) (Ref 1)"
    by (simp add: world1_def config_and_overrides_def isPlainObject_def cell_at_def)
  moreover have "\<not> writable frozen_overrides (heap world1) 1 ''useSingleton''"
    by (simp add: writable_def frozen_overrides_def world1_def config_and_overrides_def)
  moreover have "get (heap world3) (Ref 1) ''useSingleton'' = Undefined"
    by (simp add: world3_def get_def cell_at_def)
  ultimately show ?thesis using create_frozen [of no_rounds] by blast
qed

text \<open>
  Claim C10, amended. Let \<open>create\<close> be called on an instance the factory has seen, with
  an overrides object of the store (an object with data properties) on which the property
  \<open>useSingleton\<close> can be written: the property is not read-only if the object has it,
  and the object is extensible if it has not (so the object is not frozen). Then, whatever
  the merge does after the assignment (it returns, it throws, or it does not come back), in
  the world the call reaches the overrides object itself has \<open>useSingleton === false\<close>:
  it is the object it was with \<open>useSingleton\<close> set to \<open>false\<close>, and every other object
  that existed before the call is unchanged. And the call does return an instance when the
  factory's config and the overrides are plain objects on which the walk of \<open>merge\<close> ends
  within \<open>n\<close> levels.
\<close>

theorem create_mutates_overrides:
  assumes "i < length (instances w)"
    and "create_closure (instances w ! i) = Some defaultConfig"
    and "a < length (heap w)"
    and "writable locks (heap w) a ''useSingleton''"
  shows "get (heap (snd (create conv locks n w i (Ref a)))) (Ref a) ''useSingleton'' = Bool False
       \<and> heap (snd (create conv locks n w i (Ref a))) ! a
           = Cell (cls_of (heap w ! a))
               (put (props (heap w ! a)) ''useSingleton'' (Bool False))
               (elems (heap w ! a))
       \<and> (\<forall>b < length (heap w). b \<noteq> a \<longrightarrow>
             heap (snd (create conv locks n w i (Ref a))) ! b = heap w ! b)
       \<and> (fits conv n (heap w) defaultConfig \<and> fits conv n (heap w) (Ref a) \<longrightarrow>
            (\<exists>j. fst (create conv locks n w i (Ref a)) = Some (Inr j)))"
proof -
  let ?c = "heap w ! a"
  let ?h1 = "(heap w)[a := Cell (cls_of ?c) (put (props ?c) ''useSingleton'' (Bool False)) (elems ?c)]"
  let ?h' = "heap (snd (create conv locks n w i (Ref a)))"
  have as: "assign locks (heap w) (Ref a) ''useSingleton'' (Bool False) = Inr ?h1"
    using assms(3,4) by (simp add: assign_def cell_at_def)
  from create_world [OF assms(1,2) as] obtain ext where h': "?h' = ?h1 @ ext"
    by (auto simp: prefix_def)
  have cell: "?h' ! a = Cell (cls_of ?c) (put (props ?c) ''useSingleton'' (Bool False)) (elems ?c)"
    using h' assms(3) by (simp add: nth_append)
  have others: "\<forall>b < length (heap w). b \<noteq> a \<longrightarrow> ?h' ! b = heap w ! b"
    using h' by (simp add: nth_append)
  have "a < length ?h'"
    using h' assms(3) by simp
  then have g: "get ?h' (Ref a) ''useSingleton'' = Bool False"
    using cell by (simp add: get_def cell_at_def map_of_put_same)
  have ret: "fits conv n (heap w) defaultConfig \<and> fits conv n (heap w) (Ref a) \<longrightarrow>
            (\<exists>j. fst (create conv locks n w i (Ref a)) = Some (Inr j))"
  proof
    assume f: "fits conv n (heap w) defaultConfig \<and> fits conv n (heap w) (Ref a)"
    have "fits conv n ?h1 defaultConfig" and "fits conv n ?h1 (Ref a)"
      using f fits_assign [where k = "''useSingleton''" and b = False,
          OF assms(3) _ digits_not_useSingleton]
      by simp_all
    then show "\<exists>j. fst (create conv locks n w i (Ref a)) = Some (Inr j)"
      by (rule create_returns [OF assms(1,2) as])
  qed
  from g cell others ret show ?thesis by blast
qed

text \<open>
  The theorem at \<open>create({baseURL: 'x'})\<close> on the singleton, with no object locked: the
  call returns a new instance, instance 1; the caller's object had no \<open>useSingleton\<close>
  before the call and has \<open>useSingleton: false\<close> after it; the config of the singleton,
  object 0, is what it was.
\<close>

theorem create_mutates_overrides_witness:
  "0 < length (instances world1)
   \<and> create_closure (instances world1 ! 0) = Some (Ref 0)
   \<and> 1 < length (heap world1)
   \<and> writable unlocked (heap world1) 1 ''useSingleton''
   \<and> fits no_rounds 2 (heap world1) (Ref 0)
   \<and> fits no_rounds 2 (heap world1) (Ref 1)
   \<and> create no_rounds unlocked 2 world1 0 (Ref 1) = (Some (Inr 1), world2)
   \<and> get (heap world1) (Ref 1) ''useSingleton'' = Undefined
   \<and> get (heap world2) (Ref 1) ''useSingleton'' = Bool False
   \<and> heap world2 ! 0 = heap world1 ! 0"
proof -
  have i: "0 < length (instances world1)"
    by (simp add: world1_def)
  have c: "create_closure (instances world1 ! 0) = Some (Ref 0)"
    by (simp add: world1_def)
  have a: "1 < length (heap world1)"
    by (simp add: world1_def config_and_overrides_def)
  have l: "writable unlocked (heap world1) 1 ''useSingleton''"
    by (simp add: writable_def unlocked_def)
  have f0: "fits no_rounds 2 (heap world1) (Ref 0)" by code_simp
  have f1: "fits no_rounds 2 (heap world1) (Ref 1)" by code_simp
  note e = create_unlocked [of no_rounds]
  have b: "get (heap world1) (Ref 1) ''useSingleton'' = Undefined"
    by (simp add: world1_def config_and_overrides_def get_def cell_at_def)
  from create_mutates_overrides [OF i c a l, of no_rounds 2] e
  have g: "get (heap world2) (Ref 1) ''useSingleton'' = Bool False"
    and o: "\<forall>b < length (heap world1). b \<noteq> 1 \<longrightarrow> heap world2 ! b = heap world1 ! b"
    by simp_all
  have "(0::nat) < length (heap world1)" using a by arith
  with o have "heap world2 ! 0 = heap world1 ! 0" by auto
  with i c a l f0 f1 e b g show ?thesis by simp
qed

end
